theory Spec2Isabelle
  imports Complex_Main "HOL-Library.Multiset"
begin

section \<open>Tensors\<close>

text \<open>
  The layer works on one- and two-dimensional tensors. A one-dimensional tensor is a list
  of entries; a two-dimensional tensor carries its shape next to its rows, so that a
  matrix with no rows or no columns still has both dimensions, as a tensor has.
  Entries are real numbers: the development is about the arithmetic the code asks for,
  not about its rounding. Where IEEE arithmetic leaves the reals (a division by zero, a
  logarithm of a non-positive number) the model stops with the outcome \<open>NonFinite\<close>;
  that outcome is no Python exception, the program itself goes on with infinities and
  NaNs, and no statement below follows it there.
\<close>

type_synonym vec = "real list"

datatype mat = Mat (nrows: nat) (ncols: nat) (rows: "real list list")

datatype error =
    ValueError | IndexError | TypeError | AttributeError | AssertionError
  | RuntimeError | LinAlgError | NonFinite

definition wf_mat :: "mat \<Rightarrow> bool" where
  "wf_mat A \<longleftrightarrow> length (rows A) = nrows A \<and> list_all (\<lambda>r. length r = ncols A) (rows A)"

definition entry :: "mat \<Rightarrow> nat \<Rightarrow> nat \<Rightarrow> real" where
  "entry A i j = rows A ! i ! j"

definition vec_of :: "nat \<Rightarrow> (nat \<Rightarrow> real) \<Rightarrow> vec" where
  "vec_of n f = map f [0..<n]"

definition mat_of :: "nat \<Rightarrow> nat \<Rightarrow> (nat \<Rightarrow> nat \<Rightarrow> real) \<Rightarrow> mat" where
  "mat_of r c f = Mat r c (map (\<lambda>i. map (\<lambda>j. f i j) [0..<c]) [0..<r])"

definition bindE :: "error + 'a \<Rightarrow> ('a \<Rightarrow> error + 'b) \<Rightarrow> error + 'b" where
  "bindE x f = (case x of Inl e \<Rightarrow> Inl e | Inr v \<Rightarrow> f v)"

fun mapE :: "('a \<Rightarrow> error + 'b) \<Rightarrow> 'a list \<Rightarrow> error + 'b list" where
  "mapE f [] = Inr []"
| "mapE f (x # xs) =
     (case f x of Inl e \<Rightarrow> Inl e
      | Inr y \<Rightarrow> (case mapE f xs of Inl e \<Rightarrow> Inl e | Inr ys \<Rightarrow> Inr (y # ys)))"

text \<open>\<open>xs[i]\<close> on a Python list or along the first axis of a tensor.\<close>

definition index :: "'a list \<Rightarrow> nat \<Rightarrow> error + 'a" where
  "index xs i = (if i < length xs then Inr (xs ! i) else Inl IndexError)"

text \<open>\<open>self.m[c]\<close> where the attribute may still be \<open>None\<close>.\<close>

definition index_opt :: "'a list option \<Rightarrow> nat \<Rightarrow> error + 'a" where
  "index_opt xo i = (case xo of None \<Rightarrow> Inl TypeError | Some xs \<Rightarrow> index xs i)"

text \<open>\<open>d[:, i]\<close>: column \<open>i\<close> of a two-dimensional tensor.\<close>

definition column :: "mat \<Rightarrow> nat \<Rightarrow> error + vec" where
  "column D i = (if i < ncols D then Inr (vec_of (nrows D) (\<lambda>k. entry D k i)) else Inl IndexError)"

text \<open>\<open>X.T\<close> and \<open>torch.transpose(X, 0, 1)\<close> on a two-dimensional tensor.\<close>

definition mat_T :: "mat \<Rightarrow> mat" where
  "mat_T A = mat_of (ncols A) (nrows A) (\<lambda>i j. entry A j i)"

text \<open>On a one-dimensional tensor \<open>.T\<close>, \<open>.flatten()\<close> and \<open>.permute(0)\<close> change nothing.\<close>

definition vec_T :: "vec \<Rightarrow> vec" where
  "vec_T v = v"

definition flatten :: "vec \<Rightarrow> vec" where
  "flatten v = v"

definition permute :: "vec \<Rightarrow> vec" where
  "permute v = v"

definition ones :: "nat \<Rightarrow> nat \<Rightarrow> mat" where
  "ones r c = mat_of r c (\<lambda>i j. 1)"

definition ones_like :: "vec \<Rightarrow> vec" where
  "ones_like v = vec_of (length v) (\<lambda>i. 1)"

text \<open>\<open>torch.cat((A, B), dim=0)\<close> and \<open>torch.cat((A, B), dim=1)\<close>.\<close>

definition cat0 :: "mat \<Rightarrow> mat \<Rightarrow> error + mat" where
  "cat0 A B =
     (if ncols A \<noteq> ncols B then Inl RuntimeError
      else Inr (mat_of (nrows A + nrows B) (ncols A)
                  (\<lambda>i j. if i < nrows A then entry A i j else entry B (i - nrows A) j)))"

definition cat1 :: "mat \<Rightarrow> mat \<Rightarrow> error + mat" where
  "cat1 A B =
     (if nrows A \<noteq> nrows B then Inl RuntimeError
      else Inr (mat_of (nrows A) (ncols A + ncols B)
                  (\<lambda>i j. if j < ncols A then entry A i j else entry B i (j - ncols A))))"

text \<open>\<open>torch.diag\<close> of a one-dimensional tensor; \<open>spdiags(v, 0, (n, n)).to_dense()\<close> is the same matrix.\<close>

definition diag :: "vec \<Rightarrow> mat" where
  "diag v = mat_of (length v) (length v) (\<lambda>i j. if i = j then v ! i else 0)"

definition spdiags_dense :: "vec \<Rightarrow> nat \<times> nat \<Rightarrow> mat" where
  "spdiags_dense v shape = mat_of (fst shape) (snd shape) (\<lambda>i j. if i = j then v ! i else 0)"

text \<open>\<open>torch.matmul\<close> on (2-D, 2-D), (2-D, 1-D) and (1-D, 2-D) arguments.\<close>

definition matmul :: "mat \<Rightarrow> mat \<Rightarrow> error + mat" where
  "matmul A B =
     (if ncols A \<noteq> nrows B then Inl RuntimeError
      else Inr (mat_of (nrows A) (ncols B)
                  (\<lambda>i j. sum_list (map (\<lambda>k. entry A i k * entry B k j) [0..<ncols A]))))"

definition matvec :: "mat \<Rightarrow> vec \<Rightarrow> error + vec" where
  "matvec A v =
     (if ncols A \<noteq> length v then Inl RuntimeError
      else Inr (vec_of (nrows A) (\<lambda>i. sum_list (map (\<lambda>k. entry A i k * v ! k) [0..<ncols A]))))"

definition vecmat :: "vec \<Rightarrow> mat \<Rightarrow> error + vec" where
  "vecmat v A =
     (if length v \<noteq> nrows A then Inl RuntimeError
      else Inr (vec_of (ncols A) (\<lambda>j. sum_list (map (\<lambda>k. v ! k * entry A k j) [0..<nrows A]))))"

text \<open>Elementwise product and sum of two matrices of one shape, and a scalar multiple.\<close>

definition hadamard :: "mat \<Rightarrow> mat \<Rightarrow> mat" where
  "hadamard A B = mat_of (nrows A) (ncols A) (\<lambda>i j. entry A i j * entry B i j)"

definition madd :: "mat \<Rightarrow> mat \<Rightarrow> mat" where
  "madd A B = mat_of (nrows A) (ncols A) (\<lambda>i j. entry A i j + entry B i j)"

definition smul :: "real \<Rightarrow> mat \<Rightarrow> mat" where
  "smul a A = mat_of (nrows A) (ncols A) (\<lambda>i j. a * entry A i j)"

text \<open>
  \<open>M + m_k\<close> on one-dimensional tensors: equal lengths add entry by entry, a tensor
  of length one is broadcast, anything else raises.
\<close>

definition vadd :: "vec \<Rightarrow> vec \<Rightarrow> error + vec" where
  "vadd a b =
     (if length a = length b then Inr (vec_of (length a) (\<lambda>i. a ! i + b ! i))
      else if length a = 1 then Inr (vec_of (length b) (\<lambda>i. a ! 0 + b ! i))
      else if length b = 1 then Inr (vec_of (length a) (\<lambda>i. a ! i + b ! 0))
      else Inl RuntimeError)"

text \<open>
  \<open>torch.linalg.pinv\<close> is only ever applied to the diagonal matrix \<open>aux\<close>. The
  library takes the singular values of its argument, which for a diagonal matrix are the
  absolute values of the diagonal entries, inverts those that exceed the tolerance
  \<open>rtol \<cdot> \<sigma>\<^sub>m\<^sub>a\<^sub>x\<close> and replaces the others by zero; with no tolerance given, as in the
  code, \<open>rtol\<close> is \<open>max(rows, cols) \<cdot> \<epsilon>\<close> for the machine epsilon \<open>\<epsilon>\<close> of the dtype.
  \<open>machine_eps\<close> is the one of \<open>float32\<close>, the default dtype, in which the code creates
  its tensors; only the evaluations at concrete inputs depend on its value. The cut-off
  is a comparison the algorithm makes, not a rounding, so it is part of the model. The
  definition is that function on diagonal matrices and says nothing about other
  matrices.
\<close>

definition machine_eps :: real where
  "machine_eps = 1 / 2 ^ 23"

definition pinv :: "mat \<Rightarrow> mat" where
  "pinv A =
     (let sigma = map (\<lambda>i. \<bar>entry A i i\<bar>) [0..<min (nrows A) (ncols A)];
          max_val = foldr max sigma 0;
          tol = real (max (nrows A) (ncols A)) * machine_eps * max_val
      in mat_of (ncols A) (nrows A)
           (\<lambda>i j. if i = j \<and> \<bar>entry A i i\<bar> > tol then 1 / entry A i i else 0))"

text \<open>\<open>torch.stack(xs, dim=0)\<close>: the list must not be empty and all shapes must agree.\<close>

definition stack_vec :: "vec list \<Rightarrow> error + vec list" where
  "stack_vec xs =
     (if xs = [] \<or> \<not> list_all (\<lambda>x. length x = length (hd xs)) xs then Inl RuntimeError
      else Inr xs)"

definition stack_mat :: "mat list \<Rightarrow> error + mat list" where
  "stack_mat xs =
     (if xs = [] \<or> \<not> list_all (\<lambda>x. nrows x = nrows (hd xs) \<and> ncols x = ncols (hd xs)) xs
      then Inl RuntimeError
      else Inr xs)"

text \<open>
  \<open>torch.linalg.svd(H, full_matrices=False)\<close> belongs to the library, not to the
  repository: it is a parameter of the model, returning the factors \<open>U\<close> and \<open>S\<close> the
  code keeps, or raising.
\<close>

type_synonym svd = "mat \<Rightarrow> error + (mat \<times> vec)"

section \<open>The activation family\<close>

datatype act = Logs | Rel | Lin

definition sigmoid :: "real \<Rightarrow> real" where
  "sigmoid x = 1 / (1 + exp (- x))"

fun act_f :: "act \<Rightarrow> real \<Rightarrow> real" where
  "act_f Logs x = sigmoid x"
| "act_f Rel x = max 0 x"
| "act_f Lin x = x"

text \<open>
  \<open>finv\<close> on one entry. \<open>log(x / (1 - x))\<close> is finite exactly for \<open>0 < x < 1\<close>, and
  \<open>log(x)\<close> exactly for \<open>0 < x\<close>.
\<close>

fun finv1 :: "act \<Rightarrow> real \<Rightarrow> error + real" where
  "finv1 Logs x = (if 0 < x \<and> x < 1 then Inr (ln (x / (1 - x))) else Inl NonFinite)"
| "finv1 Rel x = (if 0 < x then Inr (ln x) else Inl NonFinite)"
| "finv1 Lin x = Inr x"

fun fderiv1 :: "act \<Rightarrow> real \<Rightarrow> real" where
  "fderiv1 Logs x = x * (1 - x)"
| "fderiv1 Rel x = (if x > 0 then 1 else 0)"
| "fderiv1 Lin x = 1"

definition finv :: "act \<Rightarrow> vec \<Rightarrow> error + vec" where
  "finv a d = mapE (finv1 a) d"

definition fderiv :: "act \<Rightarrow> vec \<Rightarrow> vec" where
  "fderiv a x = map (fderiv1 a) x"

section \<open>The model instance\<close>

text \<open>
  The attributes of a \<open>ROLANN\<close> object. \<open>activation\<close> stands for the three attributes
  \<open>f\<close>, \<open>finv\<close> and \<open>fderiv\<close>, which the constructor sets together or not at all;
  \<open>None\<close> there means the attributes do not exist. \<open>w\<close>, \<open>m\<close>, \<open>u\<close> and \<open>s\<close> start
  as Python's \<open>None\<close>. \<open>training\<close> is the mode flag every module has.
\<close>

record rolann =
  num_classes :: nat
  lamb :: real
  activation :: "act option"
  w :: "vec list option"
  m :: "vec list option"
  u :: "mat list option"
  s :: "vec list option"
  mg :: "vec list"
  ug :: "mat list"
  sg :: "vec list"
  sparse :: bool
  dropout_rate :: real
  training :: bool

text \<open>
  \<open>__init__\<close>. The name selects the activation by an \<open>if\<close>/\<open>elif\<close> chain that has no
  \<open>else\<close>; \<open>nn.Dropout\<close> raises a \<open>ValueError\<close> for a rate outside \<open>[0, 1]\<close>.
\<close>

definition init :: "nat \<Rightarrow> real \<Rightarrow> string \<Rightarrow> bool \<Rightarrow> real \<Rightarrow> error + rolann" where
  "init K l name sp p =
     (let a = (if name = ''logs'' then Some Logs
               else if name = ''rel'' then Some Rel
               else if name = ''lin'' then Some Lin
               else None)
      in if p < 0 \<or> p > 1 then Inl ValueError
         else Inr \<lparr>num_classes = K, lamb = l, activation = a, w = None,
                   m = None, u = None, s = None, mg = [], ug = [], sg = [],
                   sparse = sp, dropout_rate = p, training = True\<rparr>)"

definition reset :: "rolann \<Rightarrow> rolann" where
  "reset st = st\<lparr>ug := [], sg := [], mg := [], w := None\<rparr>"

text \<open>
  \<open>get_params\<close> returns \<open>self.m, self.us\<close>. No statement of the class assigns an
  attribute \<open>us\<close>, so reading it raises.
\<close>

definition get_params :: "rolann \<Rightarrow> error + (vec list option \<times> mat list option)" where
  "get_params st = (let fst_part = m st in Inl AttributeError)"

definition set_params :: "rolann \<Rightarrow> vec list \<Rightarrow> rolann" where
  "set_params st ws = st\<lparr>w := Some ws\<rparr>"

section \<open>Local statistics\<close>

text \<open>
  \<open>_update_weights(X, d)\<close> for one class: \<open>X\<close> is the feature batch, one sample per
  row, \<open>d\<close> the targets of the class.
\<close>

definition priv_update_weights :: "svd \<Rightarrow> rolann \<Rightarrow> mat \<Rightarrow> vec \<Rightarrow> error + (vec \<times> mat \<times> vec)" where
  "priv_update_weights svd st X d =
     (let XT = mat_T X; n = ncols XT in
      bindE (cat0 (ones 1 n) XT) (\<lambda>xp.
      case activation st of None \<Rightarrow> Inl AttributeError | Some a \<Rightarrow>
      bindE (finv a d) (\<lambda>f_d.
      let derf = fderiv a f_d in
      if sparse st then
        (let F_sparse = diag derf in
         bindE (matmul xp F_sparse) (\<lambda>H.
         bindE (svd H) (\<lambda>(U, S).
         bindE (matvec F_sparse (vec_T f_d)) (\<lambda>t1.
         bindE (matvec F_sparse t1) (\<lambda>t2.
         bindE (matvec xp t2) (\<lambda>M. Inr (flatten M, U, S)))))))
      else
        (let F = diag derf in
         bindE (matmul xp F) (\<lambda>H.
         bindE (svd H) (\<lambda>(U, S).
         bindE (matvec F f_d) (\<lambda>t1.
         bindE (matvec F t1) (\<lambda>t2.
         bindE (matvec xp t2) (\<lambda>M. Inr (M, U, S))))))))))"

text \<open>
  \<open>update_weights(X, d)\<close>: the statistics of every class, then three assignments. An
  empty list of results cannot be unpacked into three names.
\<close>

definition update_weights :: "svd \<Rightarrow> rolann \<Rightarrow> mat \<Rightarrow> mat \<Rightarrow> error option \<times> rolann" where
  "update_weights svd st X d =
     (case mapE (\<lambda>i. bindE (column d i) (priv_update_weights svd st X)) [0..<num_classes st] of
        Inl e \<Rightarrow> (Some e, st)
      | Inr results \<Rightarrow>
          if results = [] then (Some ValueError, st)
          else
            let ml = map fst results; ul = map (fst \<circ> snd) results; sl = map (snd \<circ> snd) results in
            (case stack_vec ml of Inl e \<Rightarrow> (Some e, st) | Inr mt \<Rightarrow>
              (let st1 = st\<lparr>m := Some mt\<rparr> in
               (case stack_mat ul of Inl e \<Rightarrow> (Some e, st1) | Inr ut \<Rightarrow>
                 (let st2 = st1\<lparr>u := Some ut\<rparr> in
                  (case stack_vec sl of Inl e \<Rightarrow> (Some e, st2) | Inr stt \<Rightarrow>
                     (None, st2\<lparr>s := Some stt\<rparr>)))))))"

section \<open>Aggregation\<close>

text \<open>
  \<open>_aggregate_parcial\<close>: the loop over the classes, with its flag \<open>init\<close>. The object
  is changed in place, so a raise leaves the entries saved so far. \<open>first_entry\<close> is the
  branch that initialises from the local statistics, \<open>merged_entry\<close> the branch that
  merges them into the global ones; the results are appended in the first case and
  assigned at index \<open>c\<close> in the second.
\<close>

definition first_entry :: "rolann \<Rightarrow> nat \<Rightarrow> error + (vec \<times> mat \<times> vec)" where
  "first_entry st c =
     bindE (index_opt (m st) c) (\<lambda>M.
     bindE (index_opt (u st) c) (\<lambda>U.
     bindE (index_opt (s st) c) (\<lambda>S. Inr (M, U, S))))"

definition merged_entry :: "svd \<Rightarrow> rolann \<Rightarrow> nat \<Rightarrow> error + (vec \<times> mat \<times> vec)" where
  "merged_entry svd st c =
     (if num_classes st \<noteq> length (mg st) then Inl AssertionError
      else
        bindE (index (mg st) c) (\<lambda>M.
        bindE (index_opt (m st) c) (\<lambda>m_k.
        bindE (index_opt (s st) c) (\<lambda>s_k.
        bindE (index_opt (u st) c) (\<lambda>u_k.
        bindE (index (ug st) c) (\<lambda>ug_c.
        bindE (index (sg st) c) (\<lambda>sg_c.
        bindE (matmul ug_c (diag sg_c)) (\<lambda>US.
        bindE (vadd M m_k) (\<lambda>M'.
        bindE (matmul u_k (diag s_k)) (\<lambda>us_k.
        bindE (cat1 us_k US) (\<lambda>concatenated.
        bindE (svd concatenated) (\<lambda>(U, S). Inr (M', U, S)))))))))))))"

fun aggregate_loop :: "svd \<Rightarrow> nat list \<Rightarrow> bool \<Rightarrow> rolann \<Rightarrow> error option \<times> rolann" where
  "aggregate_loop svd [] init_flag st = (None, st)"
| "aggregate_loop svd (c # cs) init_flag st =
     (if mg st = [] \<or> init_flag then
        (case first_entry st c of
           Inl e \<Rightarrow> (Some e, st)
         | Inr (M, U, S) \<Rightarrow>
             aggregate_loop svd cs True
               (st\<lparr>mg := mg st @ [M], ug := ug st @ [U], sg := sg st @ [S]\<rparr>))
      else
        (case merged_entry svd st c of
           Inl e \<Rightarrow> (Some e, st)
         | Inr (M, U, S) \<Rightarrow>
             aggregate_loop svd cs False
               (st\<lparr>mg := (mg st)[c := M], ug := (ug st)[c := U], sg := (sg st)[c := S]\<rparr>)))"

definition priv_aggregate_parcial :: "svd \<Rightarrow> rolann \<Rightarrow> error option \<times> rolann" where
  "priv_aggregate_parcial svd st = aggregate_loop svd [0..<num_classes st] False st"

section \<open>The weight solver\<close>

text \<open>
  The body of the loop of \<open>_calculate_weights\<close> for one class. In the dense branch
  \<open>1 / (S * S + lamb)\<close> is infinite where the denominator is zero.
\<close>

definition reciprocal :: "vec \<Rightarrow> error + vec" where
  "reciprocal v = (if list_all (\<lambda>x. x \<noteq> 0) v then Inr (map (\<lambda>x. 1 / x) v) else Inl NonFinite)"

definition calculate_weights_class :: "bool \<Rightarrow> real \<Rightarrow> vec \<Rightarrow> mat \<Rightarrow> vec \<Rightarrow> error + vec" where
  "calculate_weights_class sp l M U S =
     (if sp then
        (let I_ones = vec_of (length S) (\<lambda>i. 1);
             I_ones_size = length I_ones;
             I_sparse = spdiags_dense I_ones (I_ones_size, I_ones_size);
             S_size = length S;
             S_sparse = spdiags_dense S (S_size, S_size);
             aux = madd (hadamard S_sparse S_sparse) (smul l I_sparse)
         in bindE (matvec (mat_T U) M) (\<lambda>t1.
            bindE (matvec (pinv aux) t1) (\<lambda>t2.
            matvec U t2)))
      else
        bindE (reciprocal (vec_of (length S) (\<lambda>i. S ! i * S ! i + l * ones_like S ! i))) (\<lambda>diag_elements.
        let diag_matrix = diag diag_elements in
        bindE (matvec (mat_T U) M) (\<lambda>t1.
        bindE (matvec diag_matrix t1) (\<lambda>t2.
        matvec U t2))))"

fun calculate_loop :: "nat list \<Rightarrow> rolann \<Rightarrow> error option \<times> rolann" where
  "calculate_loop [] st = (None, st)"
| "calculate_loop (c # cs) st =
     (case bindE (index (mg st) c) (\<lambda>M.
           bindE (index (ug st) c) (\<lambda>U.
           bindE (index (sg st) c) (\<lambda>S.
           calculate_weights_class (sparse st) (lamb st) M U S))) of
        Inl e \<Rightarrow> (Some e, st)
      | Inr wc \<Rightarrow>
          (case w st of
             None \<Rightarrow> (Some AttributeError, st)
           | Some ws \<Rightarrow> calculate_loop cs (st\<lparr>w := Some (ws @ [wc])\<rparr>)))"

definition priv_calculate_weights :: "rolann \<Rightarrow> error option \<times> rolann" where
  "priv_calculate_weights st =
     (let st1 = st\<lparr>w := Some []\<rparr> in
      if mg st1 = [] \<or> ug st1 = [] \<or> sg st1 = [] then (None, st1)
      else calculate_loop [0..<num_classes st1] st1)"

section \<open>The learning call and inference\<close>

definition aggregate_update :: "svd \<Rightarrow> rolann \<Rightarrow> mat \<Rightarrow> mat \<Rightarrow> error option \<times> rolann" where
  "aggregate_update svd st X d =
     (case update_weights svd st X d of
        (Some e, st1) \<Rightarrow> (Some e, st1)
      | (None, st1) \<Rightarrow>
          (case priv_aggregate_parcial svd st1 of
             (Some e, st2) \<Rightarrow> (Some e, st2)
           | (None, st2) \<Rightarrow> priv_calculate_weights st2))"

text \<open>
  \<open>nn.Dropout\<close>: the identity outside training mode and for rate zero; otherwise each
  entry is kept and rescaled, or zeroed, as the random draw \<open>keep\<close> says.
\<close>

definition dropout :: "rolann \<Rightarrow> (nat \<Rightarrow> nat \<Rightarrow> bool) \<Rightarrow> mat \<Rightarrow> mat" where
  "dropout st keep x =
     (if training st \<and> dropout_rate st > 0 then
        mat_of (nrows x) (ncols x)
          (\<lambda>i j. if dropout_rate st < 1 \<and> keep i j then entry x i j / (1 - dropout_rate st) else 0)
      else x)"

text \<open>\<open>forward(X)\<close>; \<open>keeps i\<close> is the random draw of the dropout for class \<open>i\<close>.\<close>

definition forward :: "rolann \<Rightarrow> (nat \<Rightarrow> nat \<Rightarrow> nat \<Rightarrow> bool) \<Rightarrow> mat \<Rightarrow> error + mat" where
  "forward st keeps X =
     (let XT = mat_T X; n = ncols XT in
      case w st of None \<Rightarrow> Inl TypeError | Some ws \<Rightarrow>
      let n_outputs = length ws in
      bindE (cat0 (ones 1 n) XT) (\<lambda>xp.
      bindE (mapE (\<lambda>i.
               let w_tmp = permute (ws ! i) in
               case activation st of None \<Rightarrow> Inl AttributeError | Some a \<Rightarrow>
               bindE (vecmat w_tmp (dropout st (keeps i) xp)) (\<lambda>y. Inr (map (act_f a) y)))
             [0..<n_outputs]) (\<lambda>y_hat.
      Inr (mat_T (Mat n_outputs n y_hat)))))"

section \<open>The closed form of the specification\<close>

text \<open>
  The weight vector as the specification writes it, \<open>w = U \<cdot> diag(1/(S\<^sup>2 + \<lambda>)) \<cdot> U\<^sup>T \<cdot> M\<close>:
  the three matrices are multiplied from the left and the product is applied to \<open>M\<close>.
\<close>

definition weights_spec :: "real \<Rightarrow> vec \<Rightarrow> mat \<Rightarrow> vec \<Rightarrow> error + vec" where
  "weights_spec l M U S =
     bindE (reciprocal (map (\<lambda>x. x\<^sup>2 + l) S)) (\<lambda>r.
     bindE (matmul U (diag r)) (\<lambda>A.
     bindE (matmul A (mat_T U)) (\<lambda>B.
     matvec B M)))"

section \<open>Sequences of calls\<close>

text \<open>
  The public operations that change an instance. A caller may catch an exception and go
  on with the object, so \<open>run\<close> keeps the state a failed call leaves behind.
\<close>

datatype call = AggregateUpdate mat mat | Reset | SetParams "vec list"

fun exec :: "svd \<Rightarrow> rolann \<Rightarrow> call \<Rightarrow> error option \<times> rolann" where
  "exec svd st (AggregateUpdate X d) = aggregate_update svd st X d"
| "exec svd st Reset = (None, reset st)"
| "exec svd st (SetParams ws) = (None, set_params st ws)"

fun run :: "svd \<Rightarrow> rolann \<Rightarrow> call list \<Rightarrow> rolann" where
  "run svd st [] = st"
| "run svd st (c # cs) = run svd (snd (exec svd st c)) cs"

section \<open>The quantities of the local statistics\<close>

text \<open>
  The matrices of the specification: the bias-augmented design matrix \<open>Xp\<close> (a row of
  ones above the transposed features), the weighted design \<open>H = Xp \<cdot> F\<close> and the
  moment vector \<open>M = Xp \<cdot> F \<cdot> F \<cdot> z\<close>, where \<open>z\<close> is the pseudo-target and \<open>F\<close> the
  diagonal matrix of the per-sample weights the code computes from \<open>z\<close>.
\<close>

definition design :: "mat \<Rightarrow> mat" where
  "design X = mat_of (Suc (ncols X)) (nrows X) (\<lambda>i k. if i = 0 then 1 else entry X k (i - 1))"

definition weighted_design :: "act \<Rightarrow> mat \<Rightarrow> vec \<Rightarrow> mat" where
  "weighted_design a X z =
     mat_of (Suc (ncols X)) (nrows X) (\<lambda>i k. entry (design X) i k * fderiv1 a (z ! k))"

definition moment :: "act \<Rightarrow> mat \<Rightarrow> vec \<Rightarrow> vec" where
  "moment a X z =
     vec_of (Suc (ncols X))
       (\<lambda>i. \<Sum>k<nrows X. entry (design X) i k * (fderiv1 a (z ! k) * (fderiv1 a (z ! k) * z ! k)))"

text \<open>
  The same quantities sample by sample: the pseudo-target of one target value, and the
  entry \<open>i\<close> of the column that a sample with features \<open>x\<close> and target \<open>t\<close> contributes to
  the weighted design.
\<close>

definition pseudo_target :: "act \<Rightarrow> real \<Rightarrow> real" where
  "pseudo_target a t = (case finv1 a t of Inr z \<Rightarrow> z | Inl e \<Rightarrow> 0)"

definition sample_entry :: "act \<Rightarrow> nat \<Rightarrow> real list \<Rightarrow> real \<Rightarrow> real" where
  "sample_entry a i x t = (if i = 0 then 1 else x ! (i - 1)) * fderiv1 a (pseudo_target a t)"

section \<open>The contract of the factorisation\<close>

text \<open>
  What the library promises of \<open>torch.linalg.svd(H, full_matrices=False)\<close> when it
  returns: for \<open>H\<close> with \<open>p\<close> rows and \<open>n\<close> columns and \<open>r = min p n\<close>, the factor \<open>U\<close> has
  shape \<open>p \<times> r\<close> and orthonormal columns, \<open>S\<close> holds \<open>r\<close> non-negative values in descending
  order, and with the third factor \<open>V\<close> (shape \<open>n \<times> r\<close>, orthonormal columns), which the
  code discards, \<open>H = U \<cdot> diag(S) \<cdot> V\<^sup>T\<close>.
\<close>

definition orthonormal_cols :: "mat \<Rightarrow> bool" where
  "orthonormal_cols U \<longleftrightarrow>
     list_all (\<lambda>i. list_all (\<lambda>j.
         sum_list (map (\<lambda>k. entry U k i * entry U k j) [0..<nrows U]) = (if i = j then 1 else 0))
       [0..<ncols U]) [0..<ncols U]"

definition svd_of :: "mat \<Rightarrow> mat \<Rightarrow> vec \<Rightarrow> mat \<Rightarrow> bool" where
  "svd_of H U S V \<longleftrightarrow>
     wf_mat U \<and> wf_mat V
     \<and> nrows U = nrows H \<and> ncols U = min (nrows H) (ncols H)
     \<and> length S = min (nrows H) (ncols H)
     \<and> nrows V = ncols H \<and> ncols V = min (nrows H) (ncols H)
     \<and> orthonormal_cols U \<and> orthonormal_cols V
     \<and> list_all (\<lambda>x. 0 \<le> x) S \<and> sorted (rev S)
     \<and> bindE (matmul U (diag S)) (\<lambda>A. matmul A (mat_T V)) = Inr H"

definition svd_contract :: "svd \<Rightarrow> bool" where
  "svd_contract svd \<longleftrightarrow>
     (\<forall>H U S. wf_mat H \<longrightarrow> svd H = Inr (U, S) \<longrightarrow> (\<exists>V. svd_of H U S V))"

text \<open>
  The same facts about the entries, as the proofs use them: \<open>H\<close> is \<open>p \<times> n\<close>, \<open>U\<close> is
  \<open>p \<times> r\<close>, \<open>V\<close> is \<open>n \<times> r\<close>, the columns of \<open>U\<close> and of \<open>V\<close> are orthonormal and
  \<open>H\<^sub>i\<^sub>t = \<Sum>\<^sub>k U\<^sub>i\<^sub>k S\<^sub>k V\<^sub>t\<^sub>k\<close>.
\<close>

definition factored ::
  "nat \<Rightarrow> nat \<Rightarrow> nat \<Rightarrow> (nat \<Rightarrow> nat \<Rightarrow> real) \<Rightarrow> (nat \<Rightarrow> nat \<Rightarrow> real) \<Rightarrow> (nat \<Rightarrow> real)
   \<Rightarrow> (nat \<Rightarrow> nat \<Rightarrow> real) \<Rightarrow> bool" where
  "factored p n r H U S V \<longleftrightarrow>
     (\<forall>k<r. \<forall>l<r. (\<Sum>j<p. U j k * U j l) = (if k = l then 1 else 0))
     \<and> (\<forall>k<r. \<forall>l<r. (\<Sum>t<n. V t k * V t l) = (if k = l then 1 else 0))
     \<and> (\<forall>i<p. \<forall>t<n. H i t = (\<Sum>k<r. U i k * S k * V t k))"

text \<open>
  The overlap of column \<open>k\<close> of one factor \<open>U\<close> with column \<open>j\<close> of another: the entry
  \<open>(k, j)\<close> of \<open>U\<^sup>T U'\<close>.
\<close>

definition overlap ::
  "nat \<Rightarrow> (nat \<Rightarrow> nat \<Rightarrow> real) \<Rightarrow> (nat \<Rightarrow> nat \<Rightarrow> real) \<Rightarrow> nat \<Rightarrow> nat \<Rightarrow> real" where
  "overlap p U U' k j = (\<Sum>i<p. U i k * U' i j)"

section \<open>Invariants of an instance\<close>

text \<open>
  The statistics of one class fit together when \<open>M\<close> has as many entries as \<open>U\<close> has
  rows, \<open>S\<close> as many as \<open>U\<close> has columns, and \<open>U\<close> has no more columns than rows.
\<close>

definition stats_ok :: "vec \<Rightarrow> mat \<Rightarrow> vec \<Rightarrow> bool" where
  "stats_ok M U S \<longleftrightarrow>
     wf_mat U \<and> length M = nrows U \<and> length S = ncols U \<and> ncols U \<le> nrows U"

definition global_ok :: "rolann \<Rightarrow> bool" where
  "global_ok st \<longleftrightarrow>
     length (ug st) = length (mg st) \<and> length (sg st) = length (mg st)
     \<and> (\<forall>c < length (mg st). stats_ok (mg st ! c) (ug st ! c) (sg st ! c))"

text \<open>The local statistics of the last batch are present and fit together.\<close>

definition local_ok :: "rolann \<Rightarrow> bool" where
  "local_ok st \<longleftrightarrow>
     (\<exists>ml ul sl. m st = Some ml \<and> u st = Some ul \<and> s st = Some sl
        \<and> length ml = num_classes st \<and> length ul = num_classes st \<and> length sl = num_classes st
        \<and> (\<forall>c < num_classes st. stats_ok (ml ! c) (ul ! c) (sl ! c)))"

text \<open>Two states agree on the configuration the constructor sets.\<close>

definition same_config :: "rolann \<Rightarrow> rolann \<Rightarrow> bool" where
  "same_config st st' \<longleftrightarrow>
     num_classes st' = num_classes st \<and> lamb st' = lamb st \<and> activation st' = activation st
     \<and> sparse st' = sparse st \<and> dropout_rate st' = dropout_rate st \<and> training st' = training st"

text \<open>A call raised a Python exception (the outcome \<open>NonFinite\<close> is none).\<close>

definition raised :: "error option \<Rightarrow> bool" where
  "raised r = (case r of None \<Rightarrow> False | Some e \<Rightarrow> e \<noteq> NonFinite)"

text \<open>
  The diagonal factor that the solver applies between \<open>U\<^sup>T\<close> and \<open>U\<close>: the reciprocals
  \<open>1 / (S\<^sub>k\<^sup>2 + \<lambda>)\<close>, which the sparse branch replaces by zero where \<open>\<bar>S\<^sub>k\<^sup>2 + \<lambda>\<bar>\<close> does not
  exceed the tolerance \<open>cut_off\<close> of the pseudo-inverse.
\<close>

definition cut_off :: "real \<Rightarrow> vec \<Rightarrow> real" where
  "cut_off l S = real (length S) * machine_eps * foldr max (map (\<lambda>x. \<bar>x * x + l\<bar>) S) 0"

definition solver_diag :: "bool \<Rightarrow> real \<Rightarrow> vec \<Rightarrow> vec" where
  "solver_diag sp l S =
     map (\<lambda>x. if sp \<and> \<not> \<bar>x * x + l\<bar> > cut_off l S then 0 else 1 / (x * x + l)) S"

text \<open>
  A batch fits an instance with \<open>K\<close> classes and activation \<open>a\<close>: it has as many rows of
  targets as samples, at least \<open>K\<close> columns of targets, and every target of the \<open>K\<close>
  classes is in the domain of \<open>finv\<close>.
\<close>

definition targets_ok :: "act \<Rightarrow> nat \<Rightarrow> mat \<Rightarrow> mat \<Rightarrow> bool" where
  "targets_ok a K X D \<longleftrightarrow>
     nrows D = nrows X \<and> K \<le> ncols D
     \<and> list_all (\<lambda>i. list_all (\<lambda>k. finv1 a (entry D i k) \<noteq> Inl NonFinite) [0..<K])
           [0..<nrows D]"

text \<open>
  A call ended with the exception that the factorisation raised on a well-formed matrix
  with \<open>p\<close> rows.
\<close>

definition svd_raised :: "svd \<Rightarrow> nat \<Rightarrow> error option \<Rightarrow> bool" where
  "svd_raised svd p r \<longleftrightarrow> (\<exists>H e. wf_mat H \<and> nrows H = p \<and> svd H = Inl e \<and> r = Some e)"

text \<open>
  The global statistics are absent, or present for every class with \<open>p\<close> rows in each
  \<open>U\<close>.
\<close>

definition global_fits :: "rolann \<Rightarrow> nat \<Rightarrow> bool" where
  "global_fits st p \<longleftrightarrow>
     mg st = [] \<or> (length (mg st) = num_classes st \<and> list_all (\<lambda>U. nrows U = p) (ug st))"

text \<open>
  \<open>fresh_run svd fr st calls\<close>: running \<open>calls\<close> from \<open>st\<close>, no \<open>aggregate_update\<close>
  and no \<open>set_params\<close> has completed since the construction or the last \<open>reset\<close>;
  \<open>fr\<close> says so for the calls before \<open>st\<close>.
\<close>

fun fresh_run :: "svd \<Rightarrow> bool \<Rightarrow> rolann \<Rightarrow> call list \<Rightarrow> bool" where
  "fresh_run svd fr st [] = fr"
| "fresh_run svd fr st (AggregateUpdate X d # cs) =
     fresh_run svd (fr \<and> raised (fst (aggregate_update svd st X d)))
       (snd (aggregate_update svd st X d)) cs"
| "fresh_run svd fr st (Reset # cs) = fresh_run svd True (reset st) cs"
| "fresh_run svd fr st (SetParams ws # cs) = fresh_run svd False (set_params st ws) cs"

text \<open>Every feature batch of a sequence of calls has \<open>f\<close> columns.\<close>

fun call_dim :: "nat \<Rightarrow> call \<Rightarrow> bool" where
  "call_dim f (AggregateUpdate X d) = (ncols X = f)"
| "call_dim f Reset = True"
| "call_dim f (SetParams ws) = True"

section \<open>A worked example\<close>

text \<open>
  One class, one feature, linear activation, \<open>\<lambda> = 1/100\<close>. The data set has the two
  samples \<open>x = 3/4\<close> (target \<open>1\<close>) and \<open>x = -4/3\<close> (target \<open>0\<close>), whose bias-augmented
  columns \<open>(1, 3/4)\<close> and \<open>(1, -4/3)\<close> are orthogonal with norms \<open>5/4\<close> and \<open>5/3\<close>, so
  that every factorisation met on the way has rational factors. \<open>ex_svd\<close> is the
  factorisation on the four matrices that occur (the two single batches, their merge,
  and the full data set), and raises elsewhere. \<open>ex_st1\<close> and \<open>ex_st2\<close> are the states
  after the first and the second batch, \<open>ex_st3\<close> the state after the full data set in
  one call.
\<close>

definition ex_X1 :: mat where "ex_X1 = Mat 1 1 [[3 / 4]]"
definition ex_d1 :: mat where "ex_d1 = Mat 1 1 [[1]]"
definition ex_X2 :: mat where "ex_X2 = Mat 1 1 [[- (4 / 3)]]"
definition ex_d2 :: mat where "ex_d2 = Mat 1 1 [[0]]"
definition ex_X :: mat where "ex_X = Mat 2 1 [[3 / 4], [- (4 / 3)]]"
definition ex_d :: mat where "ex_d = Mat 2 1 [[1], [0]]"

definition ex_d_bad :: mat where "ex_d_bad = Mat 1 0 [[]]"

definition ex_U :: mat where "ex_U = Mat 2 2 [[3 / 5, 4 / 5], [- (4 / 5), 3 / 5]]"

definition ex_svd :: svd where
  "ex_svd H =
     (if H = Mat 2 1 [[1], [3 / 4]] then Inr (Mat 2 1 [[4 / 5], [3 / 5]], [5 / 4])
      else if H = Mat 2 1 [[1], [- (4 / 3)]] then Inr (Mat 2 1 [[3 / 5], [- (4 / 5)]], [5 / 3])
      else if H = Mat 2 2 [[1, 1], [- (4 / 3), 3 / 4]] then Inr (ex_U, [5 / 3, 5 / 4])
      else if H = Mat 2 2 [[1, 1], [3 / 4, - (4 / 3)]] then Inr (ex_U, [5 / 3, 5 / 4])
      else Inl LinAlgError)"

definition ex_st0 :: rolann where
  "ex_st0 = \<lparr>num_classes = 1, lamb = 1 / 100, activation = Some Lin, w = None,
             m = None, u = None, s = None, mg = [], ug = [], sg = [],
             sparse = False, dropout_rate = 0, training = True\<rparr>"

definition ex_st1 :: rolann where
  "ex_st1 = ex_st0\<lparr>w := Some [[400 / 629, 300 / 629]],
      m := Some [[1, 3 / 4]], u := Some [Mat 2 1 [[4 / 5], [3 / 5]]], s := Some [[5 / 4]],
      mg := [[1, 3 / 4]], ug := [Mat 2 1 [[4 / 5], [3 / 5]]], sg := [[5 / 4]]\<rparr>"

definition ex_st2 :: rolann where
  "ex_st2 = ex_st0\<lparr>w := Some [[400 / 629, 300 / 629]],
      m := Some [[0, 0]], u := Some [Mat 2 1 [[3 / 5], [- (4 / 5)]]], s := Some [[5 / 3]],
      mg := [[1, 3 / 4]], ug := [ex_U], sg := [[5 / 3, 5 / 4]]\<rparr>"

definition ex_st3 :: rolann where
  "ex_st3 = ex_st0\<lparr>w := Some [[400 / 629, 300 / 629]],
      m := Some [[1, 3 / 4]], u := Some [ex_U], s := Some [[5 / 3, 5 / 4]],
      mg := [[1, 3 / 4]], ug := [ex_U], sg := [[5 / 3, 5 / 4]]\<rparr>"

text \<open>
  The same two samples with two classes: the targets are \<open>(1, 2)\<close> for \<open>x = 3/4\<close> and
  \<open>(2, 1)\<close> for \<open>x = -4/3\<close>, so that both batches change the moment vector and the
  weights of both classes. The full data set \<open>ex2_X\<close> lists the second sample first.
  \<open>ex2_svd\<close> knows the two single batches and the concatenation
  \<open>[U\<^sub>l diag(S\<^sub>l) | U\<^sub>g diag(S\<^sub>g)]\<close> of the merge, which is also the weighted design of
  \<open>ex2_X\<close>; on the concatenation in the other order it raises. \<open>ex2_st1\<close> and
  \<open>ex2_st2\<close> are the states after the first and the second batch, \<open>ex2_st3\<close> the state
  after the full data set in one call.
\<close>

definition ex2_D1 :: mat where "ex2_D1 = Mat 1 2 [[1, 2]]"
definition ex2_D2 :: mat where "ex2_D2 = Mat 1 2 [[2, 1]]"
definition ex2_X :: mat where "ex2_X = Mat 2 1 [[- (4 / 3)], [3 / 4]]"
definition ex2_D :: mat where "ex2_D = Mat 2 2 [[2, 1], [1, 2]]"

definition ex2_svd :: svd where
  "ex2_svd H =
     (if H = Mat 2 1 [[1], [3 / 4]] then Inr (Mat 2 1 [[4 / 5], [3 / 5]], [5 / 4])
      else if H = Mat 2 1 [[1], [- (4 / 3)]] then Inr (Mat 2 1 [[3 / 5], [- (4 / 5)]], [5 / 3])
      else if H = Mat 2 2 [[1, 1], [- (4 / 3), 3 / 4]] then Inr (ex_U, [5 / 3, 5 / 4])
      else Inl LinAlgError)"

definition ex2_st0 :: rolann where
  "ex2_st0 = \<lparr>num_classes = 2, lamb = 1 / 100, activation = Some Lin, w = None,
              m = None, u = None, s = None, mg = [], ug = [], sg = [],
              sparse = False, dropout_rate = 0, training = True\<rparr>"

definition ex2_st1 :: rolann where
  "ex2_st1 = ex2_st0\<lparr>w := Some [[400 / 629, 300 / 629], [800 / 629, 600 / 629]],
      m := Some [[1, 3 / 4], [2, 3 / 2]],
      u := Some [Mat 2 1 [[4 / 5], [3 / 5]], Mat 2 1 [[4 / 5], [3 / 5]]],
      s := Some [[5 / 4], [5 / 4]],
      mg := [[1, 3 / 4], [2, 3 / 2]],
      ug := [Mat 2 1 [[4 / 5], [3 / 5]], Mat 2 1 [[4 / 5], [3 / 5]]],
      sg := [[5 / 4], [5 / 4]]\<rparr>"

definition ex2_w :: "vec list" where
  "ex2_w = [[2135800 / 1578161, - (756900 / 1578161)], [2573300 / 1578161, 750600 / 1578161]]"

definition ex2_st2 :: rolann where
  "ex2_st2 = ex2_st0\<lparr>w := Some ex2_w,
      m := Some [[2, - (8 / 3)], [1, - (4 / 3)]],
      u := Some [Mat 2 1 [[3 / 5], [- (4 / 5)]], Mat 2 1 [[3 / 5], [- (4 / 5)]]],
      s := Some [[5 / 3], [5 / 3]],
      mg := [[3, - (23 / 12)], [3, 1 / 6]],
      ug := [ex_U, ex_U],
      sg := [[5 / 3, 5 / 4], [5 / 3, 5 / 4]]\<rparr>"

definition ex2_st3 :: rolann where
  "ex2_st3 = ex2_st0\<lparr>w := Some ex2_w,
      m := Some [[3, - (23 / 12)], [3, 1 / 6]],
      u := Some [ex_U, ex_U],
      s := Some [[5 / 3, 5 / 4], [5 / 3, 5 / 4]],
      mg := [[3, - (23 / 12)], [3, 1 / 6]],
      ug := [ex_U, ex_U],
      sg := [[5 / 3, 5 / 4], [5 / 3, 5 / 4]]\<rparr>"

text \<open>
  One class, one feature, linear activation, \<open>\<lambda> = 1/100\<close>, and a batch of the two
  samples \<open>x = 2499.9999\<close> and \<open>x = -10000/24999999\<close>, both with target \<open>1\<close>. Their
  bias-augmented columns are orthogonal with norms \<open>2500.0001\<close> and \<open>25000001/24999999\<close>,
  which are the singular values of the weighted design; \<open>ex7_svd\<close> is its factorisation.
  \<open>ex7_st0 sp\<close> is the fresh instance with \<open>sparse = sp\<close>.
\<close>

definition ex7_X :: mat where "ex7_X = Mat 2 1 [[24999999 / 10000], [- (10000 / 24999999)]]"
definition ex7_d :: mat where "ex7_d = Mat 2 1 [[1], [1]]"

definition ex7_svd :: svd where
  "ex7_svd H =
     (if H = Mat 2 2 [[1, 1], [24999999 / 10000, - (10000 / 24999999)]]
      then Inr (Mat 2 2 [[10000 / 25000001, 24999999 / 25000001],
                         [24999999 / 25000001, - (10000 / 25000001)]],
                [25000001 / 10000, 25000001 / 24999999])
      else Inl LinAlgError)"

definition ex7_st0 :: "bool \<Rightarrow> rolann" where
  "ex7_st0 sp = \<lparr>num_classes = 1, lamb = 1 / 100, activation = Some Lin, w = None,
              m = None, u = None, s = None, mg = [], ug = [], sg = [],
              sparse = sp, dropout_rate = 0, training = True\<rparr>"

section \<open>Facts about tensors\<close>

lemmas eval_defs = bindE_def cat0_def cat1_def ones_def ones_like_def mat_T_def mat_of_def
  vec_of_def diag_def matmul_def matvec_def vecmat_def entry_def column_def index_def
  index_opt_def vadd_def hadamard_def madd_def smul_def pinv_def machine_eps_def spdiags_dense_def
  stack_vec_def stack_mat_def reciprocal_def finv_def fderiv_def vec_T_def flatten_def
  permute_def Let_def

lemma sum_list_upt: "sum_list (map f [0..<n]) = (\<Sum>k<n. f k)"
  by (simp add: interv_sum_list_conv_sum_set_nat atLeast0LessThan)

lemma length_vec_of [simp]: "length (vec_of n f) = n"
  by (simp add: vec_of_def)

lemma nth_vec_of [simp]: "i < n \<Longrightarrow> vec_of n f ! i = f i"
  by (simp add: vec_of_def)

lemma nrows_mat_of [simp]: "nrows (mat_of r c f) = r"
  by (simp add: mat_of_def)

lemma ncols_mat_of [simp]: "ncols (mat_of r c f) = c"
  by (simp add: mat_of_def)

lemma wf_mat_of [simp]: "wf_mat (mat_of r c f)"
  by (simp add: mat_of_def wf_mat_def list_all_iff)

lemma entry_mat_of [simp]: "i < r \<Longrightarrow> j < c \<Longrightarrow> entry (mat_of r c f) i j = f i j"
  by (simp add: mat_of_def entry_def)

lemma mat_of_cong:
  "r = r' \<Longrightarrow> c = c' \<Longrightarrow> (\<And>i j. i < r' \<Longrightarrow> j < c' \<Longrightarrow> f i j = g i j) \<Longrightarrow>
   mat_of r c f = mat_of r' c' g"
  by (simp add: mat_of_def)

lemma vec_of_cong: "n = n' \<Longrightarrow> (\<And>i. i < n' \<Longrightarrow> f i = g i) \<Longrightarrow> vec_of n f = vec_of n' g"
  by (simp add: vec_of_def)

lemma vec_of_nth: "vec_of (length v) (\<lambda>i. v ! i) = v"
  by (simp add: vec_of_def map_nth)

lemma nrows_mat_T [simp]: "nrows (mat_T A) = ncols A"
  by (simp add: mat_T_def)

lemma ncols_mat_T [simp]: "ncols (mat_T A) = nrows A"
  by (simp add: mat_T_def)

lemma entry_mat_T [simp]: "i < ncols A \<Longrightarrow> j < nrows A \<Longrightarrow> entry (mat_T A) i j = entry A j i"
  by (simp add: mat_T_def)

lemma nrows_diag [simp]: "nrows (diag v) = length v"
  by (simp add: diag_def)

lemma ncols_diag [simp]: "ncols (diag v) = length v"
  by (simp add: diag_def)

lemma entry_diag [simp]:
  "i < length v \<Longrightarrow> j < length v \<Longrightarrow> entry (diag v) i j = (if i = j then v ! i else 0)"
  by (simp add: diag_def)

lemma matvec_Inr:
  "ncols A = length v \<Longrightarrow>
   matvec A v = Inr (vec_of (nrows A) (\<lambda>i. \<Sum>k<ncols A. entry A i k * v ! k))"
  by (simp add: matvec_def sum_list_upt)

lemma matmul_Inr:
  "ncols A = nrows B \<Longrightarrow>
   matmul A B = Inr (mat_of (nrows A) (ncols B) (\<lambda>i j. \<Sum>k<ncols A. entry A i k * entry B k j))"
  by (simp add: matmul_def sum_list_upt)

lemma sum_if_left [simp]:
  fixes f :: "nat \<Rightarrow> real"
  shows "i < n \<Longrightarrow> (\<Sum>k<n. (if i = k then c k else 0) * f k) = c i * f i"
    and "i < n \<Longrightarrow> (\<Sum>k<n. (if k = i then c k else 0) * f k) = c i * f i"
proof -
  assume i: "i < n"
  have "(\<Sum>k<n. (if i = k then c k else 0) * f k) = (\<Sum>k<n. if k = i then c i * f i else 0)"
    by (rule sum.cong) auto
  then show "(\<Sum>k<n. (if i = k then c k else 0) * f k) = c i * f i"
    using i by simp
  have "(\<Sum>k<n. (if k = i then c k else 0) * f k) = (\<Sum>k<n. if k = i then c i * f i else 0)"
    by (rule sum.cong) auto
  then show "(\<Sum>k<n. (if k = i then c k else 0) * f k) = c i * f i"
    using i by simp
qed

lemma sum_if_right [simp]:
  fixes f :: "nat \<Rightarrow> real"
  shows "i < n \<Longrightarrow> (\<Sum>k<n. f k * (if i = k then c k else 0)) = f i * c i"
    and "i < n \<Longrightarrow> (\<Sum>k<n. f k * (if k = i then c k else 0)) = f i * c i"
proof -
  assume i: "i < n"
  have "(\<Sum>k<n. f k * (if i = k then c k else 0)) = (\<Sum>k<n. if k = i then f i * c i else 0)"
    by (rule sum.cong) auto
  then show "(\<Sum>k<n. f k * (if i = k then c k else 0)) = f i * c i"
    using i by simp
  have "(\<Sum>k<n. f k * (if k = i then c k else 0)) = (\<Sum>k<n. if k = i then f i * c i else 0)"
    by (rule sum.cong) auto
  then show "(\<Sum>k<n. f k * (if k = i then c k else 0)) = f i * c i"
    using i by simp
qed

lemma matvec_diag:
  "length r = length t \<Longrightarrow> matvec (diag r) t = Inr (vec_of (length r) (\<lambda>i. r ! i * t ! i))"
  by (simp add: matvec_Inr cong: vec_of_cong sum.cong_simp)

lemma matmul_diag_right:
  "ncols A = length r \<Longrightarrow>
   matmul A (diag r) = Inr (mat_of (nrows A) (length r) (\<lambda>i j. entry A i j * r ! j))"
  by (simp add: matmul_Inr cong: mat_of_cong sum.cong_simp)

lemma denominators_eq:
  "vec_of (length S) (\<lambda>i. S ! i * S ! i + l * ones_like S ! i) = map (\<lambda>x. x\<^sup>2 + l) S"
  by (rule nth_equalityI) (simp_all add: ones_like_def power2_eq_square)

lemma length_reciprocal: "reciprocal v = Inr r \<Longrightarrow> length r = length v"
  by (auto simp: reciprocal_def split: if_splits)

lemma entry_spdiags [simp]:
  "i < a \<Longrightarrow> j < b \<Longrightarrow> entry (spdiags_dense v (a, b)) i j = (if i = j then v ! i else 0)"
  by (simp add: spdiags_dense_def)

lemma length_solver_diag [simp]: "length (solver_diag sp l S) = length S"
  by (simp add: solver_diag_def)

lemma nth_solver_diag:
  "k < length S \<Longrightarrow>
   solver_diag sp l S ! k =
     (if sp \<and> \<not> \<bar>S ! k * S ! k + l\<bar> > cut_off l S then 0 else 1 / (S ! k * S ! k + l))"
  by (simp add: solver_diag_def)

lemma pinv_aux:
  "pinv (madd (hadamard (spdiags_dense S (length S, length S)) (spdiags_dense S (length S, length S)))
              (smul l (spdiags_dense (vec_of (length S) (\<lambda>i. 1)) (length S, length S))))
   = diag (solver_diag True l S)"
proof -
  let ?aux = "madd (hadamard (spdiags_dense S (length S, length S)) (spdiags_dense S (length S, length S)))
              (smul l (spdiags_dense (vec_of (length S) (\<lambda>i. 1)) (length S, length S)))"
  have sh: "nrows ?aux = length S" "ncols ?aux = length S"
    by (simp_all add: madd_def hadamard_def spdiags_dense_def)
  have e: "entry ?aux i i = S ! i * S ! i + l" if "i < length S" for i
    using that by (simp add: madd_def hadamard_def smul_def spdiags_dense_def)
  have sig: "map (\<lambda>i. \<bar>entry ?aux i i\<bar>) [0..<length S] = map (\<lambda>x. \<bar>x * x + l\<bar>) S"
    by (rule nth_equalityI) (simp_all add: e)
  have "pinv ?aux = mat_of (length S) (length S)
      (\<lambda>i j. if i = j \<and> \<bar>entry ?aux i i\<bar> > cut_off l S then 1 / entry ?aux i i else 0)"
    unfolding pinv_def Let_def sh by (simp add: sig cut_off_def)
  also have "\<dots> = diag (solver_diag True l S)"
    unfolding diag_def by (rule mat_of_cong) (auto simp: e nth_solver_diag)
  finally show ?thesis .
qed

lemma reciprocal_Inr:
  "list_all (\<lambda>x. x \<noteq> 0) v \<Longrightarrow> reciprocal v = Inr (map (\<lambda>x. 1 / x) v)"
  by (simp add: reciprocal_def)

lemma dense_weights_eq_spec:
  "calculate_weights_class False l M U S = weights_spec l M U S"
proof (cases "reciprocal (map (\<lambda>x. x\<^sup>2 + l) S)")
  case (Inl e)
  then show ?thesis
    by (simp add: calculate_weights_class_def weights_spec_def denominators_eq bindE_def)
next
  case (Inr r)
  then have len: "length r = length S"
    by (simp add: length_reciprocal)
  show ?thesis
  proof (cases "nrows U = length M \<and> ncols U = length S")
    case False
    then show ?thesis
      using Inr len
      by (auto simp: calculate_weights_class_def weights_spec_def denominators_eq bindE_def
          matvec_def matmul_def Let_def)
  next
    case True
    then have rM: "nrows U = length M" and cS: "ncols U = length S" by simp_all
    have t1: "matvec (mat_T U) M = Inr (vec_of (ncols U) (\<lambda>i. \<Sum>k<nrows U. entry U k i * M ! k))"
      using rM by (simp add: matvec_Inr cong: vec_of_cong sum.cong_simp)
    have lhs: "calculate_weights_class False l M U S =
        Inr (vec_of (nrows U) (\<lambda>i. \<Sum>k<ncols U. entry U i k * (r ! k * (\<Sum>j<nrows U. entry U j k * M ! j))))"
      using Inr len cS
      by (simp add: calculate_weights_class_def denominators_eq bindE_def t1 matvec_diag
          matvec_Inr cong: vec_of_cong sum.cong_simp)
    have A: "matmul U (diag r) = Inr (mat_of (nrows U) (ncols U) (\<lambda>i j. entry U i j * r ! j))"
      using len cS by (simp add: matmul_diag_right)
    have rhs: "weights_spec l M U S =
        Inr (vec_of (nrows U) (\<lambda>i. \<Sum>j<nrows U. (\<Sum>k<ncols U. entry U i k * r ! k * entry U j k) * M ! j))"
      using Inr rM
      by (simp add: weights_spec_def bindE_def A matmul_Inr matvec_Inr cong: vec_of_cong mat_of_cong sum.cong_simp)
    have "(\<Sum>k<ncols U. entry U i k * (r ! k * (\<Sum>j<nrows U. entry U j k * M ! j))) =
          (\<Sum>j<nrows U. (\<Sum>k<ncols U. entry U i k * r ! k * entry U j k) * M ! j)" for i
    proof -
      have "(\<Sum>k<ncols U. entry U i k * (r ! k * (\<Sum>j<nrows U. entry U j k * M ! j))) =
            (\<Sum>k<ncols U. \<Sum>j<nrows U. entry U i k * r ! k * entry U j k * M ! j)"
        by (simp add: sum_distrib_left mult.assoc)
      also have "\<dots> = (\<Sum>j<nrows U. \<Sum>k<ncols U. entry U i k * r ! k * entry U j k * M ! j)"
        by (rule sum.swap)
      also have "\<dots> = (\<Sum>j<nrows U. (\<Sum>k<ncols U. entry U i k * r ! k * entry U j k) * M ! j)"
        by (simp add: sum_distrib_right)
      finally show ?thesis .
    qed
    then show ?thesis by (simp add: lhs rhs)
  qed
qed

section \<open>Facts about sums and the factors of one Gram matrix\<close>

lemma sum_delta_less:
  fixes f :: "nat \<Rightarrow> real"
  shows "k < r \<Longrightarrow> (\<Sum>l<r. f l * (if k = l then 1 else 0)) = f k"
  using sum_if_right(1) [of k r f "\<lambda>l. 1"] by simp

lemma contraction:
  fixes V :: "nat \<Rightarrow> nat \<Rightarrow> real"
  assumes o: "\<forall>k<r. \<forall>l<r. (\<Sum>t<n. V t k * V t l) = (if k = l then 1 else 0)"
  shows "(\<Sum>t<n. (\<Sum>k<r. f k * V t k) * (\<Sum>l<r. g l * V t l)) = (\<Sum>k<r. f k * g k)"
proof -
  have "(\<Sum>t<n. (\<Sum>k<r. f k * V t k) * (\<Sum>l<r. g l * V t l))
      = (\<Sum>t<n. \<Sum>k<r. \<Sum>l<r. f k * V t k * (g l * V t l))"
    by (simp add: sum_product)
  also have "\<dots> = (\<Sum>k<r. \<Sum>t<n. \<Sum>l<r. f k * V t k * (g l * V t l))"
    by (rule sum.swap)
  also have "\<dots> = (\<Sum>k<r. \<Sum>l<r. \<Sum>t<n. f k * V t k * (g l * V t l))"
    by (rule sum.cong [OF refl]) (rule sum.swap)
  also have "\<dots> = (\<Sum>k<r. \<Sum>l<r. f k * g l * (\<Sum>t<n. V t k * V t l))"
    by (simp add: sum_distrib_left mult_ac)
  also have "\<dots> = (\<Sum>k<r. \<Sum>l<r. f k * g l * (if k = l then 1 else 0))"
    using o by (intro sum.cong refl) simp
  also have "\<dots> = (\<Sum>k<r. f k * g k)"
    by (intro sum.cong refl) (simp add: sum_delta_less)
  finally show ?thesis .
qed

lemma pick:
  fixes U :: "nat \<Rightarrow> nat \<Rightarrow> real"
  assumes o: "\<forall>k<r. \<forall>l<r. (\<Sum>j<p. U j k * U j l) = (if k = l then 1 else 0)" and k: "k < r"
  shows "(\<Sum>j<p. U j k * (\<Sum>l<r. g l * U j l)) = g k"
proof -
  have "(\<Sum>j<p. U j k * (\<Sum>l<r. g l * U j l)) = (\<Sum>j<p. \<Sum>l<r. g l * (U j k * U j l))"
    by (simp add: sum_distrib_left mult_ac)
  also have "\<dots> = (\<Sum>l<r. \<Sum>j<p. g l * (U j k * U j l))"
    by (rule sum.swap)
  also have "\<dots> = (\<Sum>l<r. g l * (\<Sum>j<p. U j k * U j l))"
    by (simp add: sum_distrib_left)
  also have "\<dots> = (\<Sum>l<r. g l * (if k = l then 1 else 0))"
    using o k by (intro sum.cong refl) simp
  also have "\<dots> = g k"
    using k by (rule sum_delta_less)
  finally show ?thesis .
qed

lemma lin:
  fixes V :: "nat \<Rightarrow> nat \<Rightarrow> real"
  shows "(\<Sum>t<n. (\<Sum>k<r. f k * V t k) * y t) = (\<Sum>k<r. f k * (\<Sum>t<n. V t k * y t))"
proof -
  have "(\<Sum>t<n. (\<Sum>k<r. f k * V t k) * y t) = (\<Sum>t<n. \<Sum>k<r. f k * (V t k * y t))"
    by (simp add: sum_distrib_right mult.assoc)
  also have "\<dots> = (\<Sum>k<r. \<Sum>t<n. f k * (V t k * y t))"
    by (rule sum.swap)
  also have "\<dots> = (\<Sum>k<r. f k * (\<Sum>t<n. V t k * y t))"
    by (simp add: sum_distrib_left)
  finally show ?thesis .
qed

lemma factored_gram:
  assumes f: "factored p n r H U S V" and i: "i < p" and j: "j < p"
  shows "(\<Sum>t<n. H i t * H j t) = (\<Sum>k<r. U i k * S k * (U j k * S k))"
proof -
  have "(\<Sum>t<n. H i t * H j t) = (\<Sum>t<n. (\<Sum>k<r. U i k * S k * V t k) * (\<Sum>l<r. U j l * S l * V t l))"
    using f i j by (intro sum.cong refl) (simp add: factored_def)
  also have "\<dots> = (\<Sum>k<r. U i k * S k * (U j k * S k))"
    using f by (intro contraction) (simp add: factored_def)
  finally show ?thesis .
qed

lemma factored_lin:
  assumes f: "factored p n r H U S V" and i: "i < p"
  shows "(\<Sum>t<n. H i t * y t) = (\<Sum>k<r. U i k * S k * (\<Sum>t<n. V t k * y t))"
proof -
  have "(\<Sum>t<n. H i t * y t) = (\<Sum>t<n. (\<Sum>k<r. U i k * S k * V t k) * y t)"
    using f i by (intro sum.cong refl) (simp add: factored_def)
  also have "\<dots> = (\<Sum>k<r. U i k * S k * (\<Sum>t<n. V t k * y t))"
    by (rule lin)
  finally show ?thesis .
qed

lemma overlap_expand:
  fixes U U' :: "nat \<Rightarrow> nat \<Rightarrow> real"
  assumes oU': "\<forall>k<r'. \<forall>l<r'. (\<Sum>j<p. U' j k * U' j l) = (if k = l then 1 else 0)"
    and G: "\<forall>i<p. \<forall>j<p. (\<Sum>k<r. U i k * S k * (U j k * S k)) = (\<Sum>k<r'. U' i k * S' k * (U' j k * S' k))"
    and i: "i < p" and j: "j < r'"
  shows "S' j * S' j * U' i j = (\<Sum>k<r. U i k * (S k * S k * overlap p U U' k j))"
proof -
  have "(\<Sum>l<p. (\<Sum>m<r'. U' i m * S' m * (U' l m * S' m)) * U' l j)
      = (\<Sum>l<p. U' l j * (\<Sum>m<r'. (U' i m * S' m * S' m) * U' l m))"
    by (intro sum.cong refl) (simp add: mult_ac)
  also have "\<dots> = U' i j * S' j * S' j"
    using oU' j by (rule pick)
  finally have A: "(\<Sum>l<p. (\<Sum>m<r'. U' i m * S' m * (U' l m * S' m)) * U' l j) = U' i j * S' j * S' j" .
  have "(\<Sum>l<p. (\<Sum>k<r. U i k * S k * (U l k * S k)) * U' l j)
      = (\<Sum>l<p. (\<Sum>k<r. (U i k * S k * S k) * U l k) * U' l j)"
    by (intro sum.cong refl) (simp add: mult_ac)
  also have "\<dots> = (\<Sum>k<r. (U i k * S k * S k) * (\<Sum>l<p. U l k * U' l j))"
    by (rule lin)
  also have "\<dots> = (\<Sum>k<r. U i k * (S k * S k * overlap p U U' k j))"
    by (simp add: overlap_def mult_ac)
  finally have B: "(\<Sum>l<p. (\<Sum>k<r. U i k * S k * (U l k * S k)) * U' l j)
      = (\<Sum>k<r. U i k * (S k * S k * overlap p U U' k j))" .
  have "(\<Sum>l<p. (\<Sum>k<r. U i k * S k * (U l k * S k)) * U' l j)
      = (\<Sum>l<p. (\<Sum>m<r'. U' i m * S' m * (U' l m * S' m)) * U' l j)"
    using G i by (intro sum.cong refl) simp
  with A B show ?thesis by (simp add: mult_ac)
qed

lemma overlap_values:
  fixes U U' :: "nat \<Rightarrow> nat \<Rightarrow> real"
  assumes oU: "\<forall>k<r. \<forall>l<r. (\<Sum>j<p. U j k * U j l) = (if k = l then 1 else 0)"
    and oU': "\<forall>k<r'. \<forall>l<r'. (\<Sum>j<p. U' j k * U' j l) = (if k = l then 1 else 0)"
    and G: "\<forall>i<p. \<forall>j<p. (\<Sum>k<r. U i k * S k * (U j k * S k)) = (\<Sum>k<r'. U' i k * S' k * (U' j k * S' k))"
    and k: "k < r" and j: "j < r'"
  shows "S k * S k * overlap p U U' k j = S' j * S' j * overlap p U U' k j"
proof -
  have "S' j * S' j * overlap p U U' k j = (\<Sum>i<p. U i k * (S' j * S' j * U' i j))"
    by (simp add: overlap_def sum_distrib_left mult_ac)
  also have "\<dots> = (\<Sum>i<p. U i k * (\<Sum>m<r. (S m * S m * overlap p U U' m j) * U i m))"
    using overlap_expand [OF oU' G _ j] by (intro sum.cong refl) (simp add: mult_ac)
  also have "\<dots> = S k * S k * overlap p U U' k j"
    using oU k by (rule pick)
  finally show ?thesis by (rule sym)
qed

lemma overlap_same:
  fixes U U' :: "nat \<Rightarrow> nat \<Rightarrow> real"
  assumes oU: "\<forall>k<r. \<forall>l<r. (\<Sum>j<p. U j k * U j l) = (if k = l then 1 else 0)"
    and oU': "\<forall>k<r'. \<forall>l<r'. (\<Sum>j<p. U' j k * U' j l) = (if k = l then 1 else 0)"
    and G: "\<forall>i<p. \<forall>j<p. (\<Sum>k<r. U i k * S k * (U j k * S k)) = (\<Sum>k<r'. U' i k * S' k * (U' j k * S' k))"
    and nn: "\<forall>k<r. 0 \<le> S k" "\<forall>j<r'. 0 \<le> S' j"
    and k: "k < r" and j: "j < r'" and W: "overlap p U U' k j \<noteq> 0"
  shows "S k = S' j"
proof -
  from overlap_values [OF oU oU' G k j] W have "S k * S k = S' j * S' j" by simp
  then have "(S k)\<^sup>2 = (S' j)\<^sup>2" by (simp add: power2_eq_square)
  with nn k j show ?thesis by (simp add: power2_eq_iff_nonneg)
qed

lemma shared_values:
  fixes U U' :: "nat \<Rightarrow> nat \<Rightarrow> real"
  assumes oU: "\<forall>k<r. \<forall>l<r. (\<Sum>j<p. U j k * U j l) = (if k = l then 1 else 0)"
    and oU': "\<forall>k<r'. \<forall>l<r'. (\<Sum>j<p. U' j k * U' j l) = (if k = l then 1 else 0)"
    and G: "\<forall>i<p. \<forall>j<p. (\<Sum>k<r. U i k * S k * (U j k * S k)) = (\<Sum>k<r'. U' i k * S' k * (U' j k * S' k))"
    and nn: "\<forall>k<r. 0 \<le> S k" "\<forall>j<r'. 0 \<le> S' j"
    and j: "j < r'" and nz: "S' j \<noteq> 0"
  shows "\<exists>k<r. S k = S' j"
proof (rule ccontr)
  assume "\<not> (\<exists>k<r. S k = S' j)"
  then have ne: "\<forall>k<r. S k \<noteq> S' j" by simp
  have W0: "overlap p U U' k j = 0" if k: "k < r" for k
    using overlap_same [OF oU oU' G nn k j] ne k by blast
  have "U' i j = 0" if i: "i < p" for i
  proof -
    have "S' j * S' j * U' i j = (\<Sum>k<r. U i k * (S k * S k * overlap p U U' k j))"
      by (rule overlap_expand [OF oU' G i j])
    also have "\<dots> = 0" using W0 by simp
    finally show ?thesis using nz by simp
  qed
  then have "(\<Sum>i<p. U' i j * U' i j) = 0" by simp
  moreover have "(\<Sum>i<p. U' i j * U' i j) = 1" using oU' j by simp
  ultimately show False by simp
qed

lemma spectral_independence:
  fixes U U' :: "nat \<Rightarrow> nat \<Rightarrow> real"
  assumes oU: "\<forall>k<r. \<forall>l<r. (\<Sum>j<p. U j k * U j l) = (if k = l then 1 else 0)"
    and oU': "\<forall>k<r'. \<forall>l<r'. (\<Sum>j<p. U' j k * U' j l) = (if k = l then 1 else 0)"
    and G: "\<forall>i<p. \<forall>j<p. (\<Sum>k<r. U i k * S k * (U j k * S k)) = (\<Sum>k<r'. U' i k * S' k * (U' j k * S' k))"
    and nn: "\<forall>k<r. 0 \<le> S k" "\<forall>j<r'. 0 \<le> S' j"
    and M: "\<forall>i<p. M i = (\<Sum>k<r. U i k * S k * b k)"
    and M': "\<forall>i<p. M i = (\<Sum>k<r'. U' i k * S' k * b' k)"
    and gg: "\<forall>k<r. \<forall>j<r'. S k = S' j \<longrightarrow> g k = g' j"
    and w: "\<forall>i<p. wv i = (\<Sum>k<r. U i k * (g k * (\<Sum>j<p. U j k * M j)))"
    and w': "\<forall>i<p. wv' i = (\<Sum>k<r'. U' i k * (g' k * (\<Sum>j<p. U' j k * M j)))"
  shows "\<forall>i<p. wv i = wv' i"
proof (intro allI impI)
  fix i assume i: "i < p"
  let ?W = "overlap p U U'"
  define d' where "d' j = g' j * (S' j * b' j)" for j
  have c': "(\<Sum>l<p. U' l j * M l) = S' j * b' j" if j: "j < r'" for j
  proof -
    have "(\<Sum>l<p. U' l j * M l) = (\<Sum>l<p. U' l j * (\<Sum>m<r'. (S' m * b' m) * U' l m))"
      using M' by (intro sum.cong refl) (simp add: mult_ac)
    also have "\<dots> = S' j * b' j"
      using oU' j by (rule pick)
    finally show ?thesis .
  qed
  have c: "(\<Sum>l<p. U l k * M l) = (\<Sum>j<r'. ?W k j * (S' j * b' j))" if k: "k < r" for k
  proof -
    have "(\<Sum>l<p. U l k * M l) = (\<Sum>l<p. (\<Sum>j<r'. (S' j * b' j) * U' l j) * U l k)"
      using M' by (intro sum.cong refl) (simp add: mult_ac)
    also have "\<dots> = (\<Sum>j<r'. (S' j * b' j) * (\<Sum>l<p. U' l j * U l k))"
      by (rule lin)
    also have "\<dots> = (\<Sum>j<r'. ?W k j * (S' j * b' j))"
      by (simp add: overlap_def mult_ac)
    finally show ?thesis .
  qed
  have gc: "g k * (\<Sum>l<p. U l k * M l) = (\<Sum>j<r'. ?W k j * d' j)" if k: "k < r" for k
  proof -
    have "g k * (\<Sum>l<p. U l k * M l) = (\<Sum>j<r'. g k * (?W k j * (S' j * b' j)))"
      by (simp add: c [OF k] sum_distrib_left)
    also have "\<dots> = (\<Sum>j<r'. ?W k j * d' j)"
    proof (rule sum.cong [OF refl])
      fix j assume "j \<in> {..<r'}"
      then have j: "j < r'" by simp
      show "g k * (?W k j * (S' j * b' j)) = ?W k j * d' j"
      proof (cases "?W k j = 0")
        case True
        then show ?thesis by simp
      next
        case False
        from overlap_same [OF oU oU' G nn k j False] gg k j have "g k = g' j" by simp
        then show ?thesis by (simp add: d'_def)
      qed
    qed
    finally show ?thesis .
  qed
  have "wv i = (\<Sum>k<r. U i k * (\<Sum>j<r'. ?W k j * d' j))"
    using w i gc by simp
  also have "\<dots> = (\<Sum>k<r. \<Sum>j<r'. (U i k * ?W k j) * d' j)"
    by (simp add: sum_distrib_left mult.assoc)
  also have "\<dots> = (\<Sum>j<r'. \<Sum>k<r. (U i k * ?W k j) * d' j)"
    by (rule sum.swap)
  also have "\<dots> = (\<Sum>j<r'. (\<Sum>k<r. U i k * ?W k j) * d' j)"
    by (simp add: sum_distrib_right)
  also have "\<dots> = (\<Sum>j<r'. U' i j * d' j)"
  proof (rule sum.cong [OF refl])
    fix j assume "j \<in> {..<r'}"
    then have j: "j < r'" by simp
    show "(\<Sum>k<r. U i k * ?W k j) * d' j = U' i j * d' j"
    proof (cases "S' j = 0")
      case True
      then show ?thesis by (simp add: d'_def)
    next
      case False
      have "S' j * S' j * U' i j = (\<Sum>k<r. U i k * (S k * S k * ?W k j))"
        by (rule overlap_expand [OF oU' G i j])
      also have "\<dots> = (\<Sum>k<r. U i k * (S' j * S' j * ?W k j))"
        using overlap_values [OF oU oU' G _ j] by (intro sum.cong refl) simp
      also have "\<dots> = S' j * S' j * (\<Sum>k<r. U i k * ?W k j)"
        by (simp add: sum_distrib_left mult_ac)
      finally have "U' i j = (\<Sum>k<r. U i k * ?W k j)"
        using False by simp
      then show ?thesis by simp
    qed
  qed
  also have "\<dots> = (\<Sum>j<r'. U' i j * (g' j * (\<Sum>l<p. U' l j * M l)))"
    by (intro sum.cong refl) (simp add: d'_def c')
  also have "\<dots> = wv' i"
    using w' i by simp
  finally show "wv i = wv' i" .
qed

lemma foldr_max_ge: "x \<in> set xs \<Longrightarrow> x \<le> foldr max xs (0::real)"
  by (induction xs) auto

lemma foldr_max_nonneg: "0 \<le> foldr max xs (0::real)"
  by (induction xs) auto

lemma foldr_max_le: "\<forall>x\<in>set xs. x \<le> b \<Longrightarrow> 0 \<le> b \<Longrightarrow> foldr max xs (0::real) \<le> b"
  by (induction xs) auto

lemma max_val_le:
  fixes l :: real
  assumes l: "0 \<le> l" and len: "length S = length S'"
    and a: "\<forall>k<length S. S ! k \<noteq> 0 \<longrightarrow> (\<exists>j<length S'. S' ! j = S ! k)"
  shows "foldr max (map (\<lambda>x. \<bar>x * x + l\<bar>) S) 0 \<le> foldr max (map (\<lambda>x. \<bar>x * x + l\<bar>) S') 0"
proof (rule foldr_max_le)
  show "0 \<le> foldr max (map (\<lambda>x. \<bar>x * x + l\<bar>) S') 0" by (rule foldr_max_nonneg)
  show "\<forall>x\<in>set (map (\<lambda>x. \<bar>x * x + l\<bar>) S). x \<le> foldr max (map (\<lambda>x. \<bar>x * x + l\<bar>) S') 0"
  proof
    fix x assume "x \<in> set (map (\<lambda>x. \<bar>x * x + l\<bar>) S)"
    then obtain k where k: "k < length S" and x: "x = \<bar>S ! k * S ! k + l\<bar>"
      by (auto simp: in_set_conv_nth)
    show "x \<le> foldr max (map (\<lambda>x. \<bar>x * x + l\<bar>) S') 0"
    proof (cases "S ! k = 0")
      case True
      from k len have j: "0 < length S'" by auto
      have "x = l" using x True l by simp
      also have "l \<le> \<bar>S' ! 0 * S' ! 0 + l\<bar>" using l by simp
      also have "\<dots> \<le> foldr max (map (\<lambda>x. \<bar>x * x + l\<bar>) S') 0"
        using nth_mem [OF j] by (intro foldr_max_ge) (simp add: image_iff, blast)
      finally show ?thesis .
    next
      case False
      with a k obtain j where j: "j < length S'" and e: "S' ! j = S ! k" by blast
      have "x = \<bar>S' ! j * S' ! j + l\<bar>" using x e by simp
      also have "\<dots> \<le> foldr max (map (\<lambda>x. \<bar>x * x + l\<bar>) S') 0"
        using nth_mem [OF j] by (intro foldr_max_ge) (simp add: image_iff, blast)
      finally show ?thesis .
    qed
  qed
qed

lemma cut_off_shared:
  assumes l: "0 \<le> l" and len: "length S = length S'"
    and a: "\<forall>k<length S. S ! k \<noteq> 0 \<longrightarrow> (\<exists>j<length S'. S' ! j = S ! k)"
    and b: "\<forall>j<length S'. S' ! j \<noteq> 0 \<longrightarrow> (\<exists>k<length S. S ! k = S' ! j)"
  shows "cut_off l S = cut_off l S'"
proof -
  have "foldr max (map (\<lambda>x. \<bar>x * x + l\<bar>) S) 0 = foldr max (map (\<lambda>x. \<bar>x * x + l\<bar>) S') 0"
    using max_val_le [OF l len a] max_val_le [OF l len [symmetric] b] by (rule antisym)
  then show ?thesis by (simp add: cut_off_def len)
qed

section \<open>Facts about the local statistics\<close>

lemma svd_shapes:
  assumes "svd_contract svd" "wf_mat H" "svd H = Inr (U, S)"
  shows "wf_mat U \<and> nrows U = nrows H \<and> ncols U = min (nrows H) (ncols H)
         \<and> length S = min (nrows H) (ncols H)"
  using assms unfolding svd_contract_def svd_of_def by blast

lemma mapE_Inr:
  "mapE f xs = Inr ys \<Longrightarrow> length ys = length xs \<and> (\<forall>i<length xs. f (xs ! i) = Inr (ys ! i))"
proof (induction xs arbitrary: ys)
  case Nil
  then show ?case by simp
next
  case (Cons x xs)
  from Cons.prems obtain y ys' where y: "f x = Inr y" and ys': "mapE f xs = Inr ys'" and e: "ys = y # ys'"
    by (auto split: sum.splits)
  from Cons.IH [OF ys'] show ?case
    using y e by (auto simp: nth_Cons')
qed

lemma mapE_total:
  "(\<And>x. x \<in> set xs \<Longrightarrow> \<exists>y. f x = Inr y) \<Longrightarrow> \<exists>ys. mapE f xs = Inr ys"
proof (induction xs)
  case Nil
  then show ?case by simp
next
  case (Cons x xs)
  then obtain y where "f x = Inr y" by force
  moreover from Cons obtain ys where "mapE f xs = Inr ys" by force
  ultimately show ?case by simp
qed

lemma length_finv: "finv a d = Inr z \<Longrightarrow> length z = length d"
  by (simp add: finv_def mapE_Inr)

lemma nth_finv: "finv a d = Inr z \<Longrightarrow> k < length d \<Longrightarrow> finv1 a (d ! k) = Inr (z ! k)"
  by (simp add: finv_def mapE_Inr)

lemma cat0_design: "cat0 (ones 1 (ncols (mat_T X))) (mat_T X) = Inr (design X)"
  by (auto simp: cat0_def ones_def design_def intro!: mat_of_cong)

lemma nrows_design [simp]: "nrows (design X) = Suc (ncols X)"
  by (simp add: design_def)

lemma ncols_design [simp]: "ncols (design X) = nrows X"
  by (simp add: design_def)

lemma matmul_wf: "matmul A B = Inr C \<Longrightarrow> wf_mat C \<and> nrows C = nrows A \<and> ncols C = ncols B"
  by (auto simp: matmul_def split: if_splits)

lemma matvec_length: "matvec A v = Inr x \<Longrightarrow> length x = nrows A"
  by (auto simp: matvec_def split: if_splits)

lemma bindE_simps [simp]: "bindE (Inl e) f = Inl e" "bindE (Inr v) f = f v"
  by (simp_all add: bindE_def)

lemma bindE_Inr: "bindE x f = Inr y \<longleftrightarrow> (\<exists>v. x = Inr v \<and> f v = Inr y)"
  by (cases x) (simp_all add: bindE_def)

lemma cat0_design' [simp]: "cat0 (ones (Suc 0) (nrows X)) (mat_T X) = Inr (design X)"
  using cat0_design [of X] by simp

lemma length_fderiv [simp]: "length (fderiv a z) = length z"
  by (simp add: fderiv_def)

lemma nth_fderiv [simp]: "k < length z \<Longrightarrow> fderiv a z ! k = fderiv1 a (z ! k)"
  by (simp add: fderiv_def)

lemma entry_design [simp]:
  "i < Suc (ncols X) \<Longrightarrow> k < nrows X \<Longrightarrow>
   entry (design X) i k = (if i = 0 then 1 else entry X k (i - 1))"
  by (simp add: design_def)

lemma weighted_design_eq:
  "length z = nrows X \<Longrightarrow> matmul (design X) (diag (fderiv a z)) = Inr (weighted_design a X z)"
  by (simp add: matmul_diag_right weighted_design_def cong: mat_of_cong)

lemma moment_eq:
  assumes "length z = nrows X"
  shows "bindE (matvec (diag (fderiv a z)) z) (\<lambda>t1.
         bindE (matvec (diag (fderiv a z)) t1) (\<lambda>t2.
         matvec (design X) t2)) = Inr (moment a X z)"
  using assms
  by (simp add: matvec_diag matvec_Inr moment_def cong: vec_of_cong sum.cong_simp)

lemma priv_update_weights_eq:
  "priv_update_weights svd st X d =
     (case activation st of None \<Rightarrow> Inl AttributeError | Some a \<Rightarrow>
        bindE (finv a d) (\<lambda>z.
          if nrows X \<noteq> length d then Inl RuntimeError
          else bindE (svd (weighted_design a X z)) (\<lambda>(U, S). Inr (moment a X z, U, S))))"
proof (cases "activation st")
  case None
  then show ?thesis by (simp add: priv_update_weights_def)
next
  case (Some a)
  show ?thesis
  proof (cases "finv a d")
    case (Inl e)
    then show ?thesis using Some by (simp add: priv_update_weights_def)
  next
    case (Inr z)
    then have len: "length z = length d" by (rule length_finv)
    show ?thesis
    proof (cases "length d = nrows X")
      case False
      then show ?thesis
        using Some Inr len by (simp add: priv_update_weights_def matmul_def Let_def)
    next
      case True
      then have nz: "length z = nrows X" using len by simp
      show ?thesis
      proof (cases "svd (weighted_design a X z)")
        case (Inl e)
        then show ?thesis
          using Some Inr True
          by (simp add: priv_update_weights_def Let_def weighted_design_eq [OF nz])
      next
        case us: (Inr p)
        obtain U S where p: "p = (U, S)" by (cases p)
        show ?thesis
          using Some Inr True us p moment_eq [OF nz, of a]
          by (simp add: priv_update_weights_def Let_def weighted_design_eq [OF nz]
              flatten_def vec_T_def bindE_Inr)
      qed
    qed
  qed
qed

lemma priv_update_weights_shapes:
  assumes c: "svd_contract svd" and r: "priv_update_weights svd st X d = Inr (M, U, S)"
  shows "stats_ok M U S \<and> nrows U = Suc (ncols X)"
proof -
  from r obtain a z where s: "svd (weighted_design a X z) = Inr (U, S)" and M: "M = moment a X z"
    by (auto simp: priv_update_weights_eq bindE_Inr split: option.splits if_splits)
  have "wf_mat (weighted_design a X z)" "nrows (weighted_design a X z) = Suc (ncols X)"
    by (simp_all add: weighted_design_def)
  with svd_shapes [OF c _ s] M show ?thesis
    by (simp add: stats_ok_def moment_def)
qed

section \<open>Facts about the factorisation\<close>

lemma orthonormal_cols_iff:
  "orthonormal_cols U \<longleftrightarrow>
     (\<forall>k<ncols U. \<forall>l<ncols U. (\<Sum>j<nrows U. entry U j k * entry U j l) = (if k = l then 1 else 0))"
  unfolding orthonormal_cols_def list_all_iff sum_list_upt by auto

lemma svd_of_factored:
  assumes "svd_of H U S V"
  shows "factored (nrows H) (ncols H) (min (nrows H) (ncols H)) (entry H) (entry U) ((!) S) (entry V)"
proof -
  let ?r = "min (nrows H) (ncols H)"
  from assms have sh: "nrows U = nrows H" "ncols U = ?r" "length S = ?r"
    "nrows V = ncols H" "ncols V = ?r"
    and oU: "orthonormal_cols U" and oV: "orthonormal_cols V"
    and prod: "bindE (matmul U (diag S)) (\<lambda>A. matmul A (mat_T V)) = Inr H"
    by (simp_all add: svd_of_def)
  have "matmul U (diag S) = Inr (mat_of (nrows H) ?r (\<lambda>i j. entry U i j * S ! j))"
    using sh by (simp add: matmul_diag_right)
  with prod sh have H: "H = mat_of (nrows H) (ncols H) (\<lambda>i t. \<Sum>k<?r. entry U i k * S ! k * entry V t k)"
    by (simp add: matmul_Inr cong: mat_of_cong sum.cong_simp)
  have "entry H i t = (\<Sum>k<?r. entry U i k * S ! k * entry V t k)"
    if "i < nrows H" "t < ncols H" for i t
    by (subst H) (use that in simp)
  with oU oV sh show ?thesis
    by (simp add: factored_def orthonormal_cols_iff)
qed

lemma calculate_weights_class_entries:
  assumes r: "calculate_weights_class sp l M U S = Inr v"
    and sh: "nrows U = length M" "ncols U = length S"
  shows "length v = nrows U \<and>
    (\<forall>i<nrows U. v ! i =
       (\<Sum>k<ncols U. entry U i k * (solver_diag sp l S ! k * (\<Sum>j<nrows U. entry U j k * M ! j))))"
proof -
  have t1: "matvec (mat_T U) M = Inr (vec_of (ncols U) (\<lambda>k. \<Sum>j<nrows U. entry U j k * M ! j))"
    using sh by (simp add: matvec_Inr cong: vec_of_cong sum.cong_simp)
  have core: "bindE (matvec (mat_T U) M) (\<lambda>t1.
        bindE (matvec (diag (solver_diag sp l S)) t1) (\<lambda>t2. matvec U t2))
      = Inr (vec_of (nrows U) (\<lambda>i. \<Sum>k<ncols U. entry U i k *
               (solver_diag sp l S ! k * (\<Sum>j<nrows U. entry U j k * M ! j))))"
    using sh by (simp add: t1 matvec_diag matvec_Inr cong: vec_of_cong sum.cong_simp)
  have "calculate_weights_class sp l M U S =
      bindE (matvec (mat_T U) M) (\<lambda>t1.
        bindE (matvec (diag (solver_diag sp l S)) t1) (\<lambda>t2. matvec U t2))"
  proof (cases sp)
    case True
    then show ?thesis
      by (simp add: calculate_weights_class_def Let_def pinv_aux)
  next
    case False
    with r obtain rc where rc: "reciprocal (map (\<lambda>x. x\<^sup>2 + l) S) = Inr rc"
      by (auto simp: calculate_weights_class_def denominators_eq bindE_Inr)
    then have "rc = solver_diag False l S"
      by (auto simp: reciprocal_def power2_eq_square solver_diag_def split: if_splits)
    with rc False show ?thesis
      by (simp add: calculate_weights_class_def denominators_eq)
  qed
  with r core have "v = vec_of (nrows U) (\<lambda>i. \<Sum>k<ncols U. entry U i k *
               (solver_diag sp l S ! k * (\<Sum>j<nrows U. entry U j k * M ! j)))"
    by simp
  then show ?thesis by simp
qed

lemma sum_append:
  fixes f :: "nat \<Rightarrow> real"
  shows "(\<Sum>t<a + b. f t) = (\<Sum>t<a. f t) + (\<Sum>t<b. f (a + t))"
  by (induction b) (simp_all add: add.assoc)

lemma sum_zip_mset:
  fixes F :: "'a \<Rightarrow> 'b \<Rightarrow> real"
  assumes "length xs = n" "length ys = n"
  shows "(\<Sum>t<n. F (xs ! t) (ys ! t)) = sum_mset (image_mset (\<lambda>(x, y). F x y) (mset (zip xs ys)))"
proof -
  have "sum_mset (image_mset (\<lambda>(x, y). F x y) (mset (zip xs ys)))
      = sum_list (map (\<lambda>(x, y). F x y) (zip xs ys))"
    by (simp add: sum_mset_sum_list [symmetric])
  also have "\<dots> = (\<Sum>t<n. map (\<lambda>(x, y). F x y) (zip xs ys) ! t)"
    using assms by (simp add: sum_list_sum_nth atLeast0LessThan)
  also have "\<dots> = (\<Sum>t<n. F (xs ! t) (ys ! t))"
    using assms by (intro sum.cong refl) simp
  finally show ?thesis by simp
qed

lemma merge_factorisations:
  fixes H H1 H2 C :: "nat \<Rightarrow> nat \<Rightarrow> real"
  assumes f: "factored p n r H U S V"
    and f1: "factored p n1 r1 H1 U1 S1 V1"
    and f2: "factored p n2 r2 H2 U2 S2 V2"
    and fc: "factored p (r2 + r1) rc C Uc Sc Vc"
    and C: "\<forall>i<p. \<forall>t<r2 + r1. C i t = (if t < r2 then U2 i t * S2 t else U1 i (t - r2) * S1 (t - r2))"
    and gram: "\<forall>i<p. \<forall>j<p. (\<Sum>t<n. H i t * H j t)
                 = (\<Sum>t<n1. H1 i t * H1 j t) + (\<Sum>t<n2. H2 i t * H2 j t)"
    and M: "\<forall>i<p. M i = (\<Sum>t<n. H i t * y t)"
    and M1: "\<forall>i<p. M1 i = (\<Sum>t<n1. H1 i t * y1 t)"
    and M2: "\<forall>i<p. M2 i = (\<Sum>t<n2. H2 i t * y2 t)"
    and Madd: "\<forall>i<p. M i = M1 i + M2 i"
  shows "\<forall>i<p. \<forall>j<p. (\<Sum>k<r. U i k * S k * (U j k * S k)) = (\<Sum>k<rc. Uc i k * Sc k * (Uc j k * Sc k))"
    and "\<exists>b. \<forall>i<p. M i = (\<Sum>k<r. U i k * S k * b k)"
    and "\<exists>b. \<forall>i<p. M i = (\<Sum>k<rc. Uc i k * Sc k * b k)"
proof -
  \<comment> \<open>the concatenation as a sum over its two blocks\<close>
  have blocks: "(\<Sum>t<r2 + r1. C i t * g t)
      = (\<Sum>t<r2. U2 i t * S2 t * g t) + (\<Sum>t<r1. U1 i t * S1 t * g (r2 + t))"
    if i: "i < p" for i g
  proof -
    have "(\<Sum>t<r2 + r1. C i t * g t) = (\<Sum>t<r2. C i t * g t) + (\<Sum>t<r1. C i (r2 + t) * g (r2 + t))"
      by (rule sum_append)
    moreover have "(\<Sum>t<r2. C i t * g t) = (\<Sum>t<r2. U2 i t * S2 t * g t)"
      using C i by (intro sum.cong refl) simp
    moreover have "(\<Sum>t<r1. C i (r2 + t) * g (r2 + t)) = (\<Sum>t<r1. U1 i t * S1 t * g (r2 + t))"
      using C i by (intro sum.cong refl) simp
    ultimately show ?thesis by simp
  qed
  \<comment> \<open>the Gram matrix of the concatenation is that of the full data set\<close>
  have gc: "(\<Sum>t<r2 + r1. C i t * C j t) = (\<Sum>t<n. H i t * H j t)" if i: "i < p" and j: "j < p" for i j
  proof -
    have "(\<Sum>t<r2 + r1. C i t * C j t)
        = (\<Sum>t<r2. U2 i t * S2 t * C j t) + (\<Sum>t<r1. U1 i t * S1 t * C j (r2 + t))"
      by (rule blocks [OF i])
    moreover have "(\<Sum>t<r2. U2 i t * S2 t * C j t) = (\<Sum>t<r2. U2 i t * S2 t * (U2 j t * S2 t))"
      using C j by (intro sum.cong refl) simp
    moreover have "(\<Sum>t<r1. U1 i t * S1 t * C j (r2 + t)) = (\<Sum>t<r1. U1 i t * S1 t * (U1 j t * S1 t))"
      using C j by (intro sum.cong refl) simp
    ultimately show ?thesis
      using factored_gram [OF f1 i j] factored_gram [OF f2 i j] gram i j by simp
  qed
  show "\<forall>i<p. \<forall>j<p. (\<Sum>k<r. U i k * S k * (U j k * S k)) = (\<Sum>k<rc. Uc i k * Sc k * (Uc j k * Sc k))"
  proof (intro allI impI)
    fix i j assume i: "i < p" and j: "j < p"
    have "(\<Sum>k<r. U i k * S k * (U j k * S k)) = (\<Sum>t<n. H i t * H j t)"
      by (rule factored_gram [OF f i j, symmetric])
    also have "\<dots> = (\<Sum>t<r2 + r1. C i t * C j t)"
      by (rule gc [OF i j, symmetric])
    also have "\<dots> = (\<Sum>k<rc. Uc i k * Sc k * (Uc j k * Sc k))"
      by (rule factored_gram [OF fc i j])
    finally show "(\<Sum>k<r. U i k * S k * (U j k * S k)) = (\<Sum>k<rc. Uc i k * Sc k * (Uc j k * Sc k))" .
  qed
  \<comment> \<open>the moment vector lies in the span of the columns of either factor\<close>
  have "\<forall>i<p. M i = (\<Sum>k<r. U i k * S k * (\<Sum>t<n. V t k * y t))"
  proof (intro allI impI)
    fix i assume i: "i < p"
    have "M i = (\<Sum>t<n. H i t * y t)" by (rule M [rule_format, OF i])
    also have "\<dots> = (\<Sum>k<r. U i k * S k * (\<Sum>t<n. V t k * y t))"
      by (rule factored_lin [OF f i])
    finally show "M i = (\<Sum>k<r. U i k * S k * (\<Sum>t<n. V t k * y t))" .
  qed
  then show "\<exists>b. \<forall>i<p. M i = (\<Sum>k<r. U i k * S k * b k)"
    by (rule exI [of _ "\<lambda>k. \<Sum>t<n. V t k * y t"])
  define b1 where "b1 k = (\<Sum>t<n1. V1 t k * y1 t)" for k
  define b2 where "b2 k = (\<Sum>t<n2. V2 t k * y2 t)" for k
  define yc where "yc t = (if t < r2 then b2 t else b1 (t - r2))" for t
  have "\<forall>i<p. M i = (\<Sum>k<rc. Uc i k * Sc k * (\<Sum>t<r2 + r1. Vc t k * yc t))"
  proof (intro allI impI)
    fix i assume i: "i < p"
    have "M1 i = (\<Sum>k<r1. U1 i k * S1 k * b1 k)"
      using M1 i factored_lin [OF f1 i] by (simp add: b1_def)
    moreover have "M2 i = (\<Sum>k<r2. U2 i k * S2 k * b2 k)"
      using M2 i factored_lin [OF f2 i] by (simp add: b2_def)
    moreover have "(\<Sum>t<r2. U2 i t * S2 t * yc t) = (\<Sum>k<r2. U2 i k * S2 k * b2 k)"
      by (intro sum.cong refl) (simp add: yc_def)
    moreover have "(\<Sum>t<r1. U1 i t * S1 t * yc (r2 + t)) = (\<Sum>k<r1. U1 i k * S1 k * b1 k)"
      by (intro sum.cong refl) (simp add: yc_def)
    ultimately have "M i = (\<Sum>t<r2 + r1. C i t * yc t)"
      using Madd i blocks [OF i, of yc] by simp
    also have "\<dots> = (\<Sum>k<rc. Uc i k * Sc k * (\<Sum>t<r2 + r1. Vc t k * yc t))"
      by (rule factored_lin [OF fc i])
    finally show "M i = (\<Sum>k<rc. Uc i k * Sc k * (\<Sum>t<r2 + r1. Vc t k * yc t))" .
  qed
  then show "\<exists>b. \<forall>i<p. M i = (\<Sum>k<rc. Uc i k * Sc k * b k)"
    by (rule exI [of _ "\<lambda>k. \<Sum>t<r2 + r1. Vc t k * yc t"])
qed

section \<open>Facts about the aggregation and the solver\<close>

lemma stack_vec_Inr: "stack_vec xs = Inr ys \<Longrightarrow> ys = xs"
  by (auto simp: stack_vec_def split: if_splits)

lemma stack_mat_Inr: "stack_mat xs = Inr ys \<Longrightarrow> ys = xs"
  by (auto simp: stack_mat_def split: if_splits)

lemma update_weights_fields:
  assumes "update_weights svd st X d = (r, st1)"
  shows "same_config st st1 \<and> mg st1 = mg st \<and> ug st1 = ug st \<and> sg st1 = sg st \<and> w st1 = w st"
  using assms unfolding update_weights_def Let_def same_config_def
  by (auto split: sum.splits if_splits)

lemma update_weights_None:
  assumes "update_weights svd st X d = (None, st1)"
  shows "\<exists>ml ul sl. st1 = st\<lparr>m := Some ml, u := Some ul, s := Some sl\<rparr>
           \<and> length ml = num_classes st \<and> length ul = num_classes st \<and> length sl = num_classes st
           \<and> 0 < num_classes st
           \<and> (\<forall>c < num_classes st.
                 bindE (column d c) (priv_update_weights svd st X) = Inr (ml ! c, ul ! c, sl ! c))"
proof -
  from assms obtain results where
    res: "mapE (\<lambda>i. bindE (column d i) (priv_update_weights svd st X)) [0..<num_classes st] = Inr results"
    and ne: "results \<noteq> []"
    and st1: "st1 = st\<lparr>m := Some (map fst results), u := Some (map (fst \<circ> snd) results),
                        s := Some (map (snd \<circ> snd) results)\<rparr>"
    unfolding update_weights_def Let_def
    by (auto split: sum.splits if_splits dest!: stack_vec_Inr stack_mat_Inr)
  from mapE_Inr [OF res] have len: "length results = num_classes st"
    and nth: "\<forall>c<num_classes st. bindE (column d c) (priv_update_weights svd st X) = Inr (results ! c)"
    by auto
  from ne len have pos: "0 < num_classes st" by (cases results) auto
  show ?thesis
    using st1 len nth pos by (intro exI conjI) auto
qed


lemma record_noop [simp]: "st\<lparr>mg := mg st, ug := ug st, sg := sg st\<rparr> = (st::rolann)"
  by simp

lemma aggregate_loop_init:
  assumes "m st = Some ml" "u st = Some ul" "s st = Some sl"
    and "\<forall>c\<in>set cs. c < length ml \<and> c < length ul \<and> c < length sl"
  shows "aggregate_loop svd cs True st =
          (None, st\<lparr>mg := mg st @ map ((!) ml) cs, ug := ug st @ map ((!) ul) cs,
                       sg := sg st @ map ((!) sl) cs\<rparr>)"
  using assms
proof (induction cs arbitrary: st)
  case Nil
  then show ?case by simp
next
  case (Cons c cs)
  let ?st = "st\<lparr>mg := mg st @ [ml ! c], ug := ug st @ [ul ! c], sg := sg st @ [sl ! c]\<rparr>"
  have fe: "first_entry st c = Inr (ml ! c, ul ! c, sl ! c)"
    using Cons.prems by (simp add: first_entry_def index_opt_def index_def)
  have "aggregate_loop svd cs True ?st =
          (None, ?st\<lparr>mg := mg ?st @ map ((!) ml) cs, ug := ug ?st @ map ((!) ul) cs,
                        sg := sg ?st @ map ((!) sl) cs\<rparr>)"
    using Cons.prems by (intro Cons.IH) simp_all
  then show ?case using fe by simp
qed

lemma aggregate_loop_empty:
  "mg st = [] \<Longrightarrow> aggregate_loop svd cs False st = aggregate_loop svd cs True st"
  by (cases cs) simp_all


lemma vadd_length: "vadd a b = Inr x \<Longrightarrow> length a = length b \<Longrightarrow> length x = length a"
  by (auto simp: vadd_def split: if_splits)

lemma cat1_wf:
  "cat1 A B = Inr C \<Longrightarrow> wf_mat C \<and> nrows C = nrows A \<and> nrows B = nrows A \<and> ncols C = ncols A + ncols B"
  by (auto simp: cat1_def split: if_splits)

lemma index_Inr: "index xs i = Inr x \<longleftrightarrow> i < length xs \<and> x = xs ! i"
  by (auto simp: index_def)

lemma index_opt_Inr: "index_opt xo i = Inr x \<longleftrightarrow> (\<exists>xs. xo = Some xs \<and> i < length xs \<and> x = xs ! i)"
  by (auto simp: index_opt_def index_Inr split: option.splits)

lemma merged_entry_shapes:
  assumes c: "svd_contract svd" and g: "global_ok st" and l: "local_ok st"
    and r: "merged_entry svd st c = Inr (M, U, S)"
  shows "c < length (mg st) \<and> num_classes st = length (mg st) \<and> stats_ok M U S
         \<and> nrows U = nrows (ug st ! c)"
proof -
  from r have nc: "num_classes st = length (mg st)"
    by (auto simp: merged_entry_def split: if_splits)
  from r nc obtain ml ul sl US us_k C where
    cm: "c < length (mg st)" and cu: "c < length (ug st)" and cs: "c < length (sg st)" and
    ml: "m st = Some ml" "c < length ml" and ul: "u st = Some ul" "c < length ul" and
    sl: "s st = Some sl" "c < length sl" and
    US: "matmul (ug st ! c) (diag (sg st ! c)) = Inr US" and
    M: "vadd (mg st ! c) (ml ! c) = Inr M" and
    us: "matmul (ul ! c) (diag (sl ! c)) = Inr us_k" and
    C: "cat1 us_k US = Inr C" and
    s: "svd C = Inr (U, S)"
    by (auto simp: merged_entry_def bindE_Inr index_Inr index_opt_Inr)
  from l ml ul sl have lo: "stats_ok (ml ! c) (ul ! c) (sl ! c)"
    by (auto simp: local_ok_def)
  from g cm have go: "stats_ok (mg st ! c) (ug st ! c) (sg st ! c)"
    by (auto simp: global_ok_def)
  from matmul_wf [OF US] matmul_wf [OF us] cat1_wf [OF C]
  have wfC: "wf_mat C" and rows: "nrows C = nrows (ul ! c)" "nrows (ug st ! c) = nrows (ul ! c)"
    by simp_all
  from svd_shapes [OF c wfC s] rows
  have U: "wf_mat U" "nrows U = nrows (ul ! c)" "ncols U \<le> nrows U" "length S = ncols U"
    by simp_all
  from lo go rows have "length (mg st ! c) = length (ml ! c)" "length (ml ! c) = nrows (ul ! c)"
    by (simp_all add: stats_ok_def)
  with vadd_length [OF M] have "length M = nrows U" using U by simp
  with U rows cm nc show ?thesis by (simp add: stats_ok_def)
qed

lemma aggregate_loop_merge:
  assumes c: "svd_contract svd"
  shows "mg st \<noteq> [] \<Longrightarrow> global_ok st \<Longrightarrow> local_ok st \<Longrightarrow>
         aggregate_loop svd cs False st = (r, st') \<Longrightarrow>
         global_ok st' \<and> same_config st st' \<and> w st' = w st
         \<and> m st' = m st \<and> u st' = u st \<and> s st' = s st
         \<and> length (mg st') = length (mg st)
         \<and> (\<forall>k<length (ug st'). nrows (ug st' ! k) = nrows (ug st ! k))
         \<and> (r = None \<longrightarrow> cs \<noteq> [] \<longrightarrow> num_classes st = length (mg st))"
proof (induction cs arbitrary: st)
  case Nil
  then show ?case by (simp add: same_config_def)
next
  case (Cons k cs)
  show ?case
  proof (cases "merged_entry svd st k")
    case (Inl e)
    then show ?thesis using Cons.prems by (auto simp: same_config_def)
  next
    case (Inr p)
    obtain M U S where p: "p = (M, U, S)" by (cases p)
    let ?st = "st\<lparr>mg := (mg st)[k := M], ug := (ug st)[k := U], sg := (sg st)[k := S]\<rparr>"
    from merged_entry_shapes [OF c Cons.prems(2,3) Inr [unfolded p]]
    have k: "k < length (mg st)" and nc: "num_classes st = length (mg st)"
      and ok: "stats_ok M U S" and nr: "nrows U = nrows (ug st ! k)"
      by simp_all
    have g: "global_ok ?st"
      using Cons.prems(2) k ok by (auto simp: global_ok_def nth_list_update)
    have l: "local_ok ?st"
      using Cons.prems(3) by (simp add: local_ok_def)
    have ne: "mg ?st \<noteq> []" using Cons.prems(1) by simp
    have run: "aggregate_loop svd cs False ?st = (r, st')"
      using Cons.prems(1,4) Inr p by simp
    from Cons.IH [OF ne g l run] nr nc k Cons.prems(2) show ?thesis
      by (auto simp: same_config_def nth_list_update global_ok_def)
  qed
qed


lemma merged_entry_bounds:
  "merged_entry svd st k = Inr p \<Longrightarrow>
   k < length (mg st) \<and> k < length (ug st) \<and> k < length (sg st) \<and> num_classes st = length (mg st)"
  by (auto simp: merged_entry_def bindE_Inr index_Inr split: if_splits)

lemma merged_entry_update:
  "k' \<noteq> k \<Longrightarrow>
   merged_entry svd (st\<lparr>mg := (mg st)[k := M], ug := (ug st)[k := U], sg := (sg st)[k := S]\<rparr>) k'
   = merged_entry svd st k'"
  by (simp add: merged_entry_def index_def)

lemma aggregate_loop_merge_entries:
  "distinct cs \<Longrightarrow> mg st \<noteq> [] \<Longrightarrow> aggregate_loop svd cs False st = (None, st') \<Longrightarrow>
   (\<forall>k\<in>set cs. merged_entry svd st k = Inr (mg st' ! k, ug st' ! k, sg st' ! k))
   \<and> (\<forall>k. k \<notin> set cs \<longrightarrow> mg st' ! k = mg st ! k \<and> ug st' ! k = ug st ! k \<and> sg st' ! k = sg st ! k)
   \<and> length (mg st') = length (mg st) \<and> length (ug st') = length (ug st)
   \<and> length (sg st') = length (sg st)"
proof (induction cs arbitrary: st)
  case Nil
  then show ?case by simp
next
  case (Cons k cs)
  from Cons.prems obtain p where Inr: "merged_entry svd st k = Inr p"
    by (cases "merged_entry svd st k") auto
  obtain M U S where p: "p = (M, U, S)" by (cases p)
  let ?st = "st\<lparr>mg := (mg st)[k := M], ug := (ug st)[k := U], sg := (sg st)[k := S]\<rparr>"
  from merged_entry_bounds [OF Inr]
  have k: "k < length (mg st)" "k < length (ug st)" "k < length (sg st)" by simp_all
  have run: "aggregate_loop svd cs False ?st = (None, st')"
    using Cons.prems Inr p by simp
  have d: "distinct cs" and kn: "k \<notin> set cs" using Cons.prems(1) by simp_all
  have ne: "mg ?st \<noteq> []" using Cons.prems(2) by simp
  note IH = Cons.IH [OF d ne run]
  have here: "mg st' ! k = M" "ug st' ! k = U" "sg st' ! k = S"
    using IH kn k by simp_all
  have others: "\<forall>j\<in>set cs. merged_entry svd st j = Inr (mg st' ! j, ug st' ! j, sg st' ! j)"
  proof
    fix j assume j: "j \<in> set cs"
    then have "j \<noteq> k" using kn by auto
    from merged_entry_update [OF this, where svd=svd and st=st and M=M and U=U and S=S] IH j
    show "merged_entry svd st j = Inr (mg st' ! j, ug st' ! j, sg st' ! j)" by simp
  qed
  show ?case
    using IH here others Inr p by (auto simp: nth_list_update)
qed

lemma calculate_weights_class_ok:
  assumes "stats_ok M U S"
  shows "(\<exists>v. calculate_weights_class sp l M U S = Inr v \<and> length v = nrows U)
         \<or> (\<not> sp \<and> calculate_weights_class sp l M U S = Inl NonFinite)"
proof (cases sp)
  case True
  then show ?thesis
    using assms
    by (simp add: calculate_weights_class_def stats_ok_def Let_def matvec_Inr pinv_def
        madd_def hadamard_def spdiags_dense_def)
next
  case False
  have eq: "calculate_weights_class False l M U S =
      bindE (reciprocal (map (\<lambda>x. x\<^sup>2 + l) S)) (\<lambda>r.
      bindE (matvec (mat_T U) M) (\<lambda>t1.
      bindE (matvec (diag r) t1) (\<lambda>t2.
      matvec U t2)))"
    by (simp add: calculate_weights_class_def denominators_eq)
  show ?thesis
  proof (cases "reciprocal (map (\<lambda>x. x\<^sup>2 + l) S)")
    case (Inl e)
    then have "e = NonFinite" by (auto simp: reciprocal_def split: if_splits)
    then show ?thesis using False Inl by (simp add: eq)
  next
    case (Inr r)
    then have "length r = length S" by (simp add: length_reciprocal)
    then show ?thesis using False assms
      by (simp add: eq Inr stats_ok_def matvec_Inr matvec_diag)
  qed
qed

lemma merged_entry_rows:
  assumes c: "svd_contract svd" and r: "merged_entry svd st k = Inr (M, U, S)" and ul: "u st = Some ul"
  shows "nrows U = nrows (ul ! k)"
proof -
  from r ul obtain sl US us_k C where
    us: "matmul (ul ! k) (diag (sl ! k)) = Inr us_k" and
    C: "cat1 us_k US = Inr C" and
    s: "svd C = Inr (U, S)"
    by (auto simp: merged_entry_def bindE_Inr index_Inr index_opt_Inr split: if_splits)
  from matmul_wf [OF us] cat1_wf [OF C] have "wf_mat C" "nrows C = nrows (ul ! k)" by simp_all
  with svd_shapes [OF c _ s] show ?thesis by simp
qed

lemma calculate_loop_ok:
  "global_ok st \<Longrightarrow> \<forall>c\<in>set cs. c < length (mg st) \<Longrightarrow> w st = Some ws0 \<Longrightarrow>
   calculate_loop cs st = (r, st') \<Longrightarrow>
   (r = None \<or> r = Some NonFinite) \<and> same_config st st'
   \<and> mg st' = mg st \<and> ug st' = ug st \<and> sg st' = sg st
   \<and> (r = None \<longrightarrow>
        (\<exists>vs. w st' = Some (ws0 @ vs) \<and> length vs = length cs
           \<and> (\<forall>i<length cs. length (vs ! i) = nrows (ug st ! (cs ! i))
                  \<and> calculate_weights_class (sparse st) (lamb st)
                       (mg st ! (cs ! i)) (ug st ! (cs ! i)) (sg st ! (cs ! i)) = Inr (vs ! i))))"
proof (induction cs arbitrary: st ws0)
  case Nil
  then show ?case by (simp add: same_config_def)
next
  case (Cons c cs)
  from Cons.prems(1,2) have c: "c < length (mg st)" "c < length (ug st)" "c < length (sg st)"
    and ok: "stats_ok (mg st ! c) (ug st ! c) (sg st ! c)"
    by (auto simp: global_ok_def)
  let ?r = "calculate_weights_class (sparse st) (lamb st) (mg st ! c) (ug st ! c) (sg st ! c)"
  from calculate_weights_class_ok [OF ok, of "sparse st" "lamb st"]
  consider v where "?r = Inr v" "length v = nrows (ug st ! c)" | "?r = Inl NonFinite"
    by blast
  then show ?case
  proof cases
    case 2
    then show ?thesis
      using Cons.prems c by (auto simp: index_def same_config_def)
  next
    case 1
    let ?st = "st\<lparr>w := Some (ws0 @ [v])\<rparr>"
    have run: "calculate_loop cs ?st = (r, st')"
      using Cons.prems(3,4) 1 c by (simp add: index_def)
    have g: "global_ok ?st" using Cons.prems(1) by (simp add: global_ok_def)
    have b: "\<forall>c\<in>set cs. c < length (mg ?st)" using Cons.prems(2) by simp
    have ws: "w ?st = Some (ws0 @ [v])" by simp
    from Cons.IH [OF g b ws run]
    have A: "(r = None \<or> r = Some NonFinite) \<and> same_config st st'
        \<and> mg st' = mg st \<and> ug st' = ug st \<and> sg st' = sg st"
      by (simp add: same_config_def)
    have B: "\<exists>vs. w st' = Some (ws0 @ vs) \<and> length vs = length (c # cs)
           \<and> (\<forall>i<length (c # cs). length (vs ! i) = nrows (ug st ! ((c # cs) ! i))
                  \<and> calculate_weights_class (sparse st) (lamb st)
                       (mg st ! ((c # cs) ! i)) (ug st ! ((c # cs) ! i)) (sg st ! ((c # cs) ! i)) = Inr (vs ! i))"
      if "r = None"
    proof -
      from Cons.IH [OF g b ws run] that obtain vs where
        vs: "w st' = Some ((ws0 @ [v]) @ vs)" "length vs = length cs"
          "\<forall>i<length cs. length (vs ! i) = nrows (ug st ! (cs ! i))
                  \<and> calculate_weights_class (sparse st) (lamb st)
                       (mg st ! (cs ! i)) (ug st ! (cs ! i)) (sg st ! (cs ! i)) = Inr (vs ! i)"
        by auto
      show ?thesis
        by (rule exI [of _ "v # vs"]) (use vs 1 in \<open>auto simp: nth_Cons'\<close>)
    qed
    from A B show ?thesis by blast
  qed
qed

lemma priv_calculate_weights_ok:
  assumes g: "global_ok st" and n: "length (mg st) = num_classes st" and p: "0 < num_classes st"
    and r: "priv_calculate_weights st = (r, st')"
  shows "(r = None \<or> r = Some NonFinite) \<and> same_config st st'
   \<and> mg st' = mg st \<and> ug st' = ug st \<and> sg st' = sg st
   \<and> (r = None \<longrightarrow>
        (\<exists>ws. w st' = Some ws \<and> length ws = num_classes st
           \<and> (\<forall>k<num_classes st. length (ws ! k) = nrows (ug st ! k)
                  \<and> calculate_weights_class (sparse st) (lamb st)
                       (mg st ! k) (ug st ! k) (sg st ! k) = Inr (ws ! k))))"
proof -
  let ?st = "st\<lparr>w := Some []\<rparr>"
  from g n p have ne: "mg st \<noteq> []" "ug st \<noteq> []" "sg st \<noteq> []"
    by (auto simp: global_ok_def)
  then have run: "calculate_loop [0..<num_classes st] ?st = (r, st')"
    using r by (simp add: priv_calculate_weights_def)
  have g': "global_ok ?st" using g by (simp add: global_ok_def)
  have b: "\<forall>c\<in>set [0..<num_classes st]. c < length (mg ?st)" using n by simp
  from calculate_loop_ok [OF g' b _ run, of "[]"] show ?thesis
    by (auto simp: same_config_def)
qed


lemma priv_aggregate_parcial_inv:
  assumes c: "svd_contract svd" and g: "global_ok st1" and l: "local_ok st1"
    and ul: "u st1 = Some ul" and dims: "\<forall>k<num_classes st1. nrows (ul ! k) = p"
    and r: "priv_aggregate_parcial svd st1 = (r2, st2)"
  shows "global_ok st2 \<and> same_config st1 st2 \<and> w st2 = w st1
    \<and> ((\<forall>k<length (ug st1). nrows (ug st1 ! k) = p) \<longrightarrow> (\<forall>k<length (ug st2). nrows (ug st2 ! k) = p))
    \<and> (r2 = None \<longrightarrow> 0 < num_classes st1 \<longrightarrow>
          length (mg st2) = num_classes st1 \<and> (\<forall>k<num_classes st1. nrows (ug st2 ! k) = p))
    \<and> (length (mg st2) = length (mg st1) \<or> length (mg st2) = num_classes st1)"
proof (cases "mg st1 = []")
  case True
  from l ul obtain ml sl where
    loc: "m st1 = Some ml" "s st1 = Some sl" "length ml = num_classes st1"
      "length ul = num_classes st1" "length sl = num_classes st1"
      "\<forall>k < num_classes st1. stats_ok (ml ! k) (ul ! k) (sl ! k)"
    by (auto simp: local_ok_def)
  from g True have e: "ug st1 = []" "sg st1 = []" by (simp_all add: global_ok_def)
  have b: "\<forall>k\<in>set [0..<num_classes st1]. k < length ml \<and> k < length ul \<and> k < length sl"
    using loc by simp
  have "aggregate_loop svd [0..<num_classes st1] False st1 =
          (None, st1\<lparr>mg := mg st1 @ map ((!) ml) [0..<num_classes st1],
                        ug := ug st1 @ map ((!) ul) [0..<num_classes st1],
                        sg := sg st1 @ map ((!) sl) [0..<num_classes st1]\<rparr>)"
    using aggregate_loop_init [OF loc(1) ul loc(2) b, of svd] aggregate_loop_empty [OF True]
    by simp
  moreover have "map ((!) ml) [0..<num_classes st1] = ml" "map ((!) ul) [0..<num_classes st1] = ul"
    "map ((!) sl) [0..<num_classes st1] = sl"
    using loc(3-5) map_nth by metis+
  ultimately have st2: "r2 = None" "st2 = st1\<lparr>mg := ml, ug := ul, sg := sl\<rparr>"
    using r True e by (simp_all add: priv_aggregate_parcial_def)
  show ?thesis
    using st2 loc dims by (auto simp: global_ok_def same_config_def)
next
  case False
  have run: "aggregate_loop svd [0..<num_classes st1] False st1 = (r2, st2)"
    using r by (simp add: priv_aggregate_parcial_def)
  note inv = aggregate_loop_merge [OF c False g l run]
  have D: "length (mg st2) = num_classes st1 \<and> (\<forall>k<num_classes st1. nrows (ug st2 ! k) = p)"
    if n: "r2 = None" and pos: "0 < num_classes st1"
  proof -
    from pos have ne: "[0..<num_classes st1] \<noteq> []" by simp
    from inv n ne have len: "length (mg st2) = num_classes st1" by simp
    from n run have run': "aggregate_loop svd [0..<num_classes st1] False st1 = (None, st2)" by simp
    from aggregate_loop_merge_entries [OF _ False run']
    have ent: "\<forall>k<num_classes st1. merged_entry svd st1 k = Inr (mg st2 ! k, ug st2 ! k, sg st2 ! k)"
      by simp
    have "nrows (ug st2 ! k) = p" if k: "k < num_classes st1" for k
      using merged_entry_rows [OF c ent [rule_format, OF k] ul] dims k by simp
    with len show ?thesis by simp
  qed
  from inv g have lu: "length (ug st2) = length (ug st1)" by (simp add: global_ok_def)
  have P: "(\<forall>k<length (ug st1). nrows (ug st1 ! k) = p) \<longrightarrow> (\<forall>k<length (ug st2). nrows (ug st2 ! k) = p)"
    using inv lu by simp
  from inv have L: "length (mg st2) = length (mg st1)" by simp
  from inv D P L show ?thesis by blast
qed


lemma update_weights_local:
  assumes c: "svd_contract svd" and r: "update_weights svd st X d = (None, st1)"
  shows "local_ok st1 \<and> 0 < num_classes st \<and> activation st \<noteq> None
         \<and> (\<exists>ul. u st1 = Some ul \<and> (\<forall>k<num_classes st1. nrows (ul ! k) = Suc (ncols X)))"
proof -
  from update_weights_None [OF r] obtain ml ul sl where
    st1: "st1 = st\<lparr>m := Some ml, u := Some ul, s := Some sl\<rparr>" and
    len: "length ml = num_classes st" "length ul = num_classes st" "length sl = num_classes st" and
    pos: "0 < num_classes st" and
    ent: "\<forall>k < num_classes st.
            bindE (column d k) (priv_update_weights svd st X) = Inr (ml ! k, ul ! k, sl ! k)"
    by blast
  have sh: "stats_ok (ml ! k) (ul ! k) (sl ! k) \<and> nrows (ul ! k) = Suc (ncols X)
            \<and> activation st \<noteq> None"
    if k: "k < num_classes st" for k
  proof -
    from ent k obtain dk where pk: "priv_update_weights svd st X dk = Inr (ml ! k, ul ! k, sl ! k)"
      by (auto simp: bindE_Inr)
    then have "activation st \<noteq> None"
      by (auto simp: priv_update_weights_eq split: option.splits)
    with priv_update_weights_shapes [OF c pk] show ?thesis by simp
  qed
  from sh [OF pos] have "activation st \<noteq> None" by simp
  then show ?thesis
    using st1 len pos sh by (auto simp: local_ok_def)
qed

lemma aggregate_update_inv:
  assumes c: "svd_contract svd" and g: "global_ok st"
    and r: "aggregate_update svd st X d = (r, st')"
  shows "global_ok st' \<and> same_config st st'
    \<and> (raised r \<longrightarrow> w st' = w st)
    \<and> ((\<forall>k<length (ug st). nrows (ug st ! k) = Suc (ncols X))
          \<longrightarrow> (\<forall>k<length (ug st'). nrows (ug st' ! k) = Suc (ncols X)))
    \<and> (r = None \<longrightarrow>
          0 < num_classes st \<and> activation st \<noteq> None \<and> length (mg st') = num_classes st
          \<and> (\<forall>k<num_classes st. nrows (ug st' ! k) = Suc (ncols X))
          \<and> (\<exists>ws. w st' = Some ws \<and> length ws = num_classes st
                \<and> (\<forall>k<num_classes st. length (ws ! k) = Suc (ncols X)
                      \<and> calculate_weights_class (sparse st) (lamb st)
                            (mg st' ! k) (ug st' ! k) (sg st' ! k) = Inr (ws ! k))))
    \<and> (length (mg st') = length (mg st) \<or> length (mg st') = num_classes st)"
proof -
  obtain r1 st1 where uw: "update_weights svd st X d = (r1, st1)" by force
  note f1 = update_weights_fields [OF uw]
  show ?thesis
  proof (cases r1)
    case (Some e)
    then have "r = Some e" "st' = st1" using r uw by (simp_all add: aggregate_update_def)
    then show ?thesis using f1 g by (auto simp: global_ok_def)
  next
    case None
    with uw have uw': "update_weights svd st X d = (None, st1)" by simp
    from update_weights_local [OF c uw'] obtain ul where
      l: "local_ok st1" and pos: "0 < num_classes st" and act: "activation st \<noteq> None" and
      ul: "u st1 = Some ul" and dims: "\<forall>k<num_classes st1. nrows (ul ! k) = Suc (ncols X)"
      by blast
    have g1: "global_ok st1" using f1 g by (simp add: global_ok_def)
    have nc1: "num_classes st1 = num_classes st" using f1 by (simp add: same_config_def)
    obtain r2 st2 where ap: "priv_aggregate_parcial svd st1 = (r2, st2)" by force
    note f2 = priv_aggregate_parcial_inv [OF c g1 l ul dims ap]
    have step: "aggregate_update svd st X d =
        (case r2 of Some e \<Rightarrow> (Some e, st2) | None \<Rightarrow> priv_calculate_weights st2)"
      using uw' ap by (simp add: aggregate_update_def split: option.splits)
    have P: "(\<forall>k<length (ug st). nrows (ug st ! k) = Suc (ncols X))
          \<longrightarrow> (\<forall>k<length (ug st2). nrows (ug st2 ! k) = Suc (ncols X))"
      using f2 f1 by simp
    have sc2: "same_config st st2" using f1 f2 by (simp add: same_config_def)
    have L2: "length (mg st2) = length (mg st) \<or> length (mg st2) = num_classes st"
      using f1 f2 nc1 by auto
    show ?thesis
    proof (cases r2)
      case (Some e)
      then have "r = Some e" "st' = st2" using r step by simp_all
      then show ?thesis using f1 f2 P sc2 L2 by simp
    next
      case None
      then have cw: "priv_calculate_weights st2 = (r, st')" using r step by simp
      from f2 None pos nc1 have len: "length (mg st2) = num_classes st2"
        and rows: "\<forall>k<num_classes st. nrows (ug st2 ! k) = Suc (ncols X)"
        by (simp_all add: same_config_def)
      have pos2: "0 < num_classes st2" using pos sc2 by (simp add: same_config_def)
      have g2: "global_ok st2" using f2 by simp
      note f3 = priv_calculate_weights_ok [OF g2 len pos2 cw]
      have nr: "\<not> raised r" using f3 by (auto simp: raised_def)
      have g3: "global_ok st'" using f3 g2 by (simp add: global_ok_def)
      have sc3: "same_config st st'" using f3 sc2 by (simp add: same_config_def)
      have P3: "(\<forall>k<length (ug st). nrows (ug st ! k) = Suc (ncols X))
          \<longrightarrow> (\<forall>k<length (ug st'). nrows (ug st' ! k) = Suc (ncols X))"
        using P f3 by simp
      have D: "\<exists>ws. w st' = Some ws \<and> length ws = num_classes st
                \<and> (\<forall>k<num_classes st. length (ws ! k) = Suc (ncols X)
                      \<and> calculate_weights_class (sparse st) (lamb st)
                            (mg st' ! k) (ug st' ! k) (sg st' ! k) = Inr (ws ! k))"
        if "r = None"
        using f3 that rows sc2 by (auto simp: same_config_def)
      have E: "length (mg st') = num_classes st \<and> (\<forall>k<num_classes st. nrows (ug st' ! k) = Suc (ncols X))"
        using f3 len rows sc2 by (simp add: same_config_def)
      have L3: "length (mg st') = length (mg st) \<or> length (mg st') = num_classes st"
        using E by simp
      from g3 sc3 nr P3 D E pos act L3 show ?thesis by blast
    qed
  qed
qed

lemma dropout_shape [simp]:
  "nrows (dropout st keep x) = nrows x" "ncols (dropout st keep x) = ncols x"
  by (simp_all add: dropout_def)

lemma forward_ok:
  assumes ws: "w st = Some ws" and a: "activation st = Some a"
    and len: "\<forall>k<length ws. length (ws ! k) = Suc (ncols X)"
  shows "\<exists>Y. forward st keeps X = Inr Y \<and> wf_mat Y \<and> nrows Y = nrows X \<and> ncols Y = length ws"
proof -
  let ?f = "\<lambda>i. bindE (vecmat (permute (ws ! i)) (dropout st (keeps i) (design X)))
                   (\<lambda>y. Inr (map (act_f a) y))"
  have "\<exists>y. ?f i = Inr y" if "i \<in> set [0..<length ws]" for i
    using that len by (simp add: vecmat_def permute_def)
  from mapE_total [of "[0..<length ws]" ?f, OF this] obtain ys where
    ys: "mapE ?f [0..<length ws] = Inr ys" by blast
  have "forward st keeps X = Inr (mat_T (Mat (length ws) (nrows X) ys))"
    using ws a ys by (simp add: forward_def Let_def)
  then show ?thesis by (simp add: mat_T_def)
qed

lemma forward_uninitialized: "w st = None \<Longrightarrow> forward st keeps X = Inl TypeError"
  by (simp add: forward_def Let_def)

section \<open>Facts about calls that return\<close>

lemma finv1_total: "finv1 a x \<noteq> Inl NonFinite \<Longrightarrow> \<exists>z. finv1 a x = Inr z"
  by (cases a) (simp_all split: if_splits)

lemma mapE_Inl: "mapE f xs = Inl e \<Longrightarrow> \<exists>x\<in>set xs. f x = Inl e"
  by (induction xs) (auto split: sum.splits)

lemma targets_ok_finv:
  assumes t: "targets_ok a K X D" and k: "k < K"
  shows "\<exists>dk z. column D k = Inr dk \<and> finv a dk = Inr z \<and> length dk = nrows X"
proof -
  let ?dk = "vec_of (nrows D) (\<lambda>i. entry D i k)"
  from t k have col: "column D k = Inr ?dk" and n: "length ?dk = nrows X"
    by (simp_all add: targets_ok_def column_def)
  have "\<exists>z. finv1 a x = Inr z" if "x \<in> set ?dk" for x
  proof -
    from that obtain i where i: "i < nrows D" and x: "x = entry D i k"
      by (auto simp: vec_of_def)
    from t i k have "finv1 a (entry D i k) \<noteq> Inl NonFinite"
      by (simp add: targets_ok_def list_all_iff)
    with x show ?thesis by (simp add: finv1_total)
  qed
  from mapE_total [of ?dk "finv1 a", OF this] obtain z where "finv a ?dk = Inr z"
    by (auto simp: finv_def)
  with col n show ?thesis by blast
qed

lemma stack_vec_same: "xs \<noteq> [] \<Longrightarrow> \<forall>x\<in>set xs. length x = n \<Longrightarrow> stack_vec xs = Inr xs"
  by (cases xs) (auto simp: stack_vec_def list_all_iff)

lemma stack_mat_same:
  "xs \<noteq> [] \<Longrightarrow> \<forall>x\<in>set xs. nrows x = a \<and> ncols x = b \<Longrightarrow> stack_mat xs = Inr xs"
  by (cases xs) (auto simp: stack_mat_def list_all_iff)

lemma update_weights_progress:
  assumes c: "svd_contract svd" and a: "activation st = Some a" and pos: "0 < num_classes st"
    and t: "targets_ok a (num_classes st) X D"
    and r: "update_weights svd st X D = (r1, st1)"
  shows "r1 = None \<or> svd_raised svd (Suc (ncols X)) r1"
proof -
  let ?f = "\<lambda>i. bindE (column D i) (priv_update_weights svd st X)"
  let ?K = "num_classes st"
  let ?p = "Suc (ncols X)" and ?q = "min (Suc (ncols X)) (nrows X)"
  have each: "(\<exists>M U S. ?f k = Inr (M, U, S) \<and> length M = ?p \<and> nrows U = ?p \<and> ncols U = ?q
                 \<and> length S = ?q)
      \<or> (\<exists>e. ?f k = Inl e \<and> svd_raised svd ?p (Some e))" if k: "k < ?K" for k
  proof -
    from targets_ok_finv [OF t k] obtain dk z where
      dk: "column D k = Inr dk" and z: "finv a dk = Inr z" and n: "length dk = nrows X"
      by blast
    have eq: "?f k = bindE (svd (weighted_design a X z)) (\<lambda>(U, S). Inr (moment a X z, U, S))"
      using dk z n a by (simp add: priv_update_weights_eq)
    have wd: "wf_mat (weighted_design a X z)" "nrows (weighted_design a X z) = ?p"
      "ncols (weighted_design a X z) = nrows X"
      by (simp_all add: weighted_design_def)
    have lm: "length (moment a X z) = ?p" by (simp add: moment_def)
    show ?thesis
    proof (cases "svd (weighted_design a X z)")
      case (Inl e)
      have "svd_raised svd ?p (Some e)"
        unfolding svd_raised_def
        by (intro exI [of _ "weighted_design a X z"] exI [of _ e]) (simp add: Inl wd)
      with eq Inl show ?thesis by simp
    next
      case (Inr q)
      obtain U S where q: "q = (U, S)" by (cases q)
      from svd_shapes [OF c wd(1) Inr [unfolded q]]
      have "nrows U = ?p" "ncols U = ?q" "length S = ?q"
        by (simp_all add: wd)
      with eq Inr q lm show ?thesis by simp
    qed
  qed
  show ?thesis
  proof (cases "mapE ?f [0..<?K]")
    case (Inl e)
    then have r1: "r1 = Some e" using r by (simp add: update_weights_def)
    from mapE_Inl [OF Inl] obtain k where k: "k < ?K" and fk: "?f k = Inl e" by auto
    from each [OF k] fk have "svd_raised svd ?p (Some e)" by auto
    with r1 show ?thesis by simp
  next
    case (Inr results)
    from mapE_Inr [OF Inr] have len: "length results = ?K"
      and nth: "\<forall>k<?K. ?f k = Inr (results ! k)" by auto
    from len pos have ne: "results \<noteq> []" by auto
    have sh: "length (fst x) = ?p \<and> nrows (fst (snd x)) = ?p \<and> ncols (fst (snd x)) = ?q
              \<and> length (snd (snd x)) = ?q" if "x \<in> set results" for x
    proof -
      from that len obtain k where k: "k < ?K" and x: "x = results ! k"
        by (auto simp: in_set_conv_nth)
      from each [OF k] nth k x show ?thesis by auto
    qed
    have "stack_vec (map fst results) = Inr (map fst results)"
      using ne sh by (intro stack_vec_same [where n = ?p]) auto
    moreover have "stack_mat (map (fst \<circ> snd) results) = Inr (map (fst \<circ> snd) results)"
      using ne sh by (intro stack_mat_same [where a = ?p and b = ?q]) auto
    moreover have "stack_vec (map (snd \<circ> snd) results) = Inr (map (snd \<circ> snd) results)"
      using ne sh by (intro stack_vec_same [where n = ?q]) auto
    ultimately have "r1 = None"
      using r Inr ne by (simp add: update_weights_def Let_def)
    then show ?thesis by simp
  qed
qed

lemma merged_entry_progress:
  assumes g: "global_ok st" and l: "local_ok st" and nc: "num_classes st = length (mg st)"
    and k: "k < num_classes st" and ul: "u st = Some ul"
    and dims: "nrows (ul ! k) = p" and rows: "nrows (ug st ! k) = p"
  shows "(\<exists>q. merged_entry svd st k = Inr q)
         \<or> (\<exists>e. merged_entry svd st k = Inl e \<and> svd_raised svd p (Some e))"
proof -
  from l ul obtain ml sl where
    loc: "m st = Some ml" "s st = Some sl" "length ml = num_classes st"
      "length ul = num_classes st" "length sl = num_classes st"
      "stats_ok (ml ! k) (ul ! k) (sl ! k)"
    using k by (auto simp: local_ok_def)
  from g nc k have glo: "k < length (mg st)" "k < length (ug st)" "k < length (sg st)"
    "stats_ok (mg st ! k) (ug st ! k) (sg st ! k)"
    by (auto simp: global_ok_def)
  let ?US = "mat_of (nrows (ug st ! k)) (length (sg st ! k)) (\<lambda>i j. entry (ug st ! k) i j * sg st ! k ! j)"
  let ?us = "mat_of (nrows (ul ! k)) (length (sl ! k)) (\<lambda>i j. entry (ul ! k) i j * sl ! k ! j)"
  have US: "matmul (ug st ! k) (diag (sg st ! k)) = Inr ?US"
    using glo(4) by (simp add: matmul_diag_right stats_ok_def)
  have us: "matmul (ul ! k) (diag (sl ! k)) = Inr ?us"
    using loc(6) by (simp add: matmul_diag_right stats_ok_def)
  have "length (mg st ! k) = length (ml ! k)"
    using glo(4) loc(6) dims rows by (simp add: stats_ok_def)
  then obtain M' where M': "vadd (mg st ! k) (ml ! k) = Inr M'"
    by (simp add: vadd_def)
  obtain C where C: "cat1 ?us ?US = Inr C"
    using dims rows by (simp add: cat1_def)
  from cat1_wf [OF C] dims have wfC: "wf_mat C" "nrows C = p" by simp_all
  have eq: "merged_entry svd st k = bindE (svd C) (\<lambda>(U, S). Inr (M', U, S))"
    using nc loc glo ul US us M' C k
    by (simp add: merged_entry_def index_def index_opt_def)
  show ?thesis
  proof (cases "svd C")
    case (Inl e)
    have "svd_raised svd p (Some e)"
      unfolding svd_raised_def
      by (intro exI [of _ C] exI [of _ e]) (simp add: Inl wfC)
    with eq Inl show ?thesis by simp
  next
    case (Inr q)
    then show ?thesis using eq by (cases q) simp
  qed
qed

lemma aggregate_loop_merge_progress:
  assumes c: "svd_contract svd"
  shows "mg st \<noteq> [] \<Longrightarrow> global_ok st \<Longrightarrow> local_ok st \<Longrightarrow> num_classes st = length (mg st) \<Longrightarrow>
         \<forall>k\<in>set cs. k < num_classes st \<Longrightarrow> u st = Some ul \<Longrightarrow>
         \<forall>k<num_classes st. nrows (ul ! k) = p \<Longrightarrow>
         \<forall>k<num_classes st. nrows (ug st ! k) = p \<Longrightarrow>
         aggregate_loop svd cs False st = (r, st') \<Longrightarrow>
         r = None \<or> svd_raised svd p r"
proof (induction cs arbitrary: st)
  case Nil
  then show ?case by simp
next
  case (Cons k cs)
  from Cons.prems(5) have k: "k < num_classes st" by simp
  from merged_entry_progress [OF Cons.prems(2,3,4) k Cons.prems(6), of p svd] Cons.prems(7,8) k
  consider q where "merged_entry svd st k = Inr q"
    | e where "merged_entry svd st k = Inl e" "svd_raised svd p (Some e)"
    by auto
  then show ?case
  proof cases
    case 2
    then show ?thesis using Cons.prems(1,9) by auto
  next
    case 1
    obtain M U S where q: "q = (M, U, S)" by (cases q)
    let ?st = "st\<lparr>mg := (mg st)[k := M], ug := (ug st)[k := U], sg := (sg st)[k := S]\<rparr>"
    from merged_entry_shapes [OF c Cons.prems(2,3) 1 [unfolded q]]
    have kl: "k < length (mg st)" and ok: "stats_ok M U S" and nr: "nrows U = nrows (ug st ! k)"
      by simp_all
    have g: "global_ok ?st"
      using Cons.prems(2) kl ok by (auto simp: global_ok_def nth_list_update)
    have l: "local_ok ?st"
      using Cons.prems(3) by (simp add: local_ok_def)
    have ne: "mg ?st \<noteq> []" using Cons.prems(1) by simp
    have nc: "num_classes ?st = length (mg ?st)" using Cons.prems(4) by simp
    have b: "\<forall>j\<in>set cs. j < num_classes ?st" using Cons.prems(5) by simp
    have ul: "u ?st = Some ul" using Cons.prems(6) by simp
    have d: "\<forall>j<num_classes ?st. nrows (ul ! j) = p" using Cons.prems(7) by simp
    from Cons.prems(2) kl have klu: "k < length (ug st)" by (simp add: global_ok_def)
    have rows: "\<forall>j<num_classes ?st. nrows (ug ?st ! j) = p"
      using Cons.prems(8) nr k klu by (auto simp: nth_list_update)
    have run: "aggregate_loop svd cs False ?st = (r, st')"
      using Cons.prems(1,9) 1 q by simp
    from Cons.IH [OF ne g l nc b ul d rows run] show ?thesis .
  qed
qed

lemma priv_aggregate_parcial_progress:
  assumes c: "svd_contract svd" and g: "global_ok st1" and l: "local_ok st1"
    and ul: "u st1 = Some ul" and dims: "\<forall>k<num_classes st1. nrows (ul ! k) = p"
    and fits: "global_fits st1 p"
    and r: "priv_aggregate_parcial svd st1 = (r2, st2)"
  shows "r2 = None \<or> svd_raised svd p r2"
proof (cases "mg st1 = []")
  case True
  from l ul obtain ml sl where
    loc: "m st1 = Some ml" "s st1 = Some sl" "length ml = num_classes st1"
      "length ul = num_classes st1" "length sl = num_classes st1"
    by (auto simp: local_ok_def)
  have b: "\<forall>k\<in>set [0..<num_classes st1]. k < length ml \<and> k < length ul \<and> k < length sl"
    using loc by simp
  from aggregate_loop_init [OF loc(1) ul loc(2) b, of svd] aggregate_loop_empty [OF True, of svd]
  have "fst (aggregate_loop svd [0..<num_classes st1] False st1) = None" by simp
  with r show ?thesis by (simp add: priv_aggregate_parcial_def)
next
  case False
  with fits have nc: "num_classes st1 = length (mg st1)"
    and all: "list_all (\<lambda>U. nrows U = p) (ug st1)"
    by (simp_all add: global_fits_def)
  from g have "length (ug st1) = length (mg st1)" by (simp add: global_ok_def)
  with all nc have rows: "\<forall>k<num_classes st1. nrows (ug st1 ! k) = p"
    by (simp add: list_all_length)
  have run: "aggregate_loop svd [0..<num_classes st1] False st1 = (r2, st2)"
    using r by (simp add: priv_aggregate_parcial_def)
  have b: "\<forall>k\<in>set [0..<num_classes st1]. k < num_classes st1" by simp
  from aggregate_loop_merge_progress [OF c False g l nc b ul dims rows run] show ?thesis .
qed

lemma calculate_weights_class_total:
  assumes ok: "stats_ok M U S" and reg: "sp \<or> 0 < l"
  shows "\<exists>v. calculate_weights_class sp l M U S = Inr v"
proof (cases sp)
  case True
  with calculate_weights_class_ok [OF ok, of sp l] show ?thesis by auto
next
  case False
  with reg have l: "0 < l" by simp
  have "0 < x\<^sup>2 + l" for x :: real
    using l by (simp add: add_nonneg_pos)
  then have nz: "list_all (\<lambda>x. x \<noteq> 0) (map (\<lambda>x. x\<^sup>2 + l) S)"
    by (simp add: list_all_iff less_imp_neq [THEN not_sym])
  have eq: "calculate_weights_class False l M U S =
      bindE (reciprocal (map (\<lambda>x. x\<^sup>2 + l) S)) (\<lambda>r.
      bindE (matvec (mat_T U) M) (\<lambda>t1.
      bindE (matvec (diag r) t1) (\<lambda>t2.
      matvec U t2)))"
    by (simp add: calculate_weights_class_def denominators_eq)
  from reciprocal_Inr [OF nz] obtain rc where rc: "reciprocal (map (\<lambda>x. x\<^sup>2 + l) S) = Inr rc"
    by blast
  then have "length rc = length S" by (simp add: length_reciprocal)
  then show ?thesis using False ok
    by (simp add: eq rc stats_ok_def matvec_Inr matvec_diag)
qed

lemma calculate_loop_total:
  "global_ok st \<Longrightarrow> \<forall>c\<in>set cs. c < length (mg st) \<Longrightarrow> w st = Some ws0 \<Longrightarrow>
   sparse st \<or> 0 < lamb st \<Longrightarrow> fst (calculate_loop cs st) = None"
proof (induction cs arbitrary: st ws0)
  case Nil
  then show ?case by simp
next
  case (Cons c cs)
  from Cons.prems(1,2) have c: "c < length (mg st)" "c < length (ug st)" "c < length (sg st)"
    and ok: "stats_ok (mg st ! c) (ug st ! c) (sg st ! c)"
    by (auto simp: global_ok_def)
  from calculate_weights_class_total [OF ok Cons.prems(4)] obtain v where
    v: "calculate_weights_class (sparse st) (lamb st) (mg st ! c) (ug st ! c) (sg st ! c) = Inr v" ..
  let ?st = "st\<lparr>w := Some (ws0 @ [v])\<rparr>"
  have step: "calculate_loop (c # cs) st = calculate_loop cs ?st"
    using Cons.prems(3) v c by (simp add: index_def)
  have g: "global_ok ?st" using Cons.prems(1) by (simp add: global_ok_def)
  have b: "\<forall>c\<in>set cs. c < length (mg ?st)" using Cons.prems(2) by simp
  have ws: "w ?st = Some (ws0 @ [v])" by simp
  have reg: "sparse ?st \<or> 0 < lamb ?st" using Cons.prems(4) by simp
  from Cons.IH [OF g b ws reg] step show ?case by simp
qed

lemma priv_calculate_weights_total:
  assumes g: "global_ok st" and n: "length (mg st) = num_classes st"
    and reg: "sparse st \<or> 0 < lamb st"
  shows "fst (priv_calculate_weights st) = None"
proof -
  let ?st = "st\<lparr>w := Some []\<rparr>"
  have g': "global_ok ?st" using g by (simp add: global_ok_def)
  have b: "\<forall>c\<in>set [0..<num_classes st]. c < length (mg ?st)" using n by simp
  have reg': "sparse ?st \<or> 0 < lamb ?st" using reg by simp
  from calculate_loop_total [OF g' b _ reg', of "[]"]
  have "fst (calculate_loop [0..<num_classes st] ?st) = None" by simp
  then show ?thesis by (simp add: priv_calculate_weights_def Let_def)
qed

lemma aggregate_update_progress:
  assumes c: "svd_contract svd" and g: "global_ok st"
    and fits: "global_fits st (Suc (ncols X))"
    and a: "activation st = Some a" and pos: "0 < num_classes st"
    and t: "targets_ok a (num_classes st) X D"
    and reg: "0 < lamb st \<or> sparse st"
    and r: "aggregate_update svd st X D = (r, st')"
  shows "r = None \<or> svd_raised svd (Suc (ncols X)) r"
proof -
  obtain r1 st1 where uw: "update_weights svd st X D = (r1, st1)" by force
  note f1 = update_weights_fields [OF uw]
  show ?thesis
  proof (cases r1)
    case (Some e)
    then have "r = r1" using r uw by (simp add: aggregate_update_def)
    with update_weights_progress [OF c a pos t uw] show ?thesis by simp
  next
    case None
    with uw have uw': "update_weights svd st X D = (None, st1)" by simp
    from update_weights_local [OF c uw'] obtain ul where
      l: "local_ok st1" and
      ul: "u st1 = Some ul" and dims: "\<forall>k<num_classes st1. nrows (ul ! k) = Suc (ncols X)"
      by blast
    have g1: "global_ok st1" using f1 g by (simp add: global_ok_def)
    have nc1: "num_classes st1 = num_classes st" using f1 by (simp add: same_config_def)
    have fits1: "global_fits st1 (Suc (ncols X))"
      using fits f1 nc1 by (simp add: global_fits_def)
    obtain r2 st2 where ap: "priv_aggregate_parcial svd st1 = (r2, st2)" by force
    note p2 = priv_aggregate_parcial_progress [OF c g1 l ul dims fits1 ap]
    note f2 = priv_aggregate_parcial_inv [OF c g1 l ul dims ap]
    have step: "aggregate_update svd st X D =
        (case r2 of Some e \<Rightarrow> (Some e, st2) | None \<Rightarrow> priv_calculate_weights st2)"
      using uw' ap by (simp add: aggregate_update_def split: option.splits)
    show ?thesis
    proof (cases r2)
      case (Some e)
      then have "r = r2" using r step by simp
      with p2 show ?thesis by simp
    next
      case None
      then have cw: "priv_calculate_weights st2 = (r, st')" using r step by simp
      from f2 None pos nc1 have len: "length (mg st2) = num_classes st2"
        by (simp add: same_config_def)
      have g2: "global_ok st2" using f2 by simp
      have reg2: "sparse st2 \<or> 0 < lamb st2"
        using reg f1 f2 by (auto simp: same_config_def)
      from priv_calculate_weights_total [OF g2 len reg2] cw show ?thesis by simp
    qed
  qed
qed

section \<open>Facts about sequences of calls\<close>

lemma init_ok:
  "init K l name sp p = Inr st0 \<Longrightarrow>
   global_ok st0 \<and> num_classes st0 = K \<and> w st0 = None \<and> ug st0 = []"
  by (auto simp: init_def global_ok_def Let_def split: if_splits)

lemma exec_inv:
  assumes c: "svd_contract svd" and g: "global_ok st"
  shows "global_ok (snd (exec svd st call)) \<and> same_config st (snd (exec svd st call))"
proof (cases call)
  case (AggregateUpdate X d)
  obtain r st' where "aggregate_update svd st X d = (r, st')" by force
  with aggregate_update_inv [OF c g this] AggregateUpdate show ?thesis by simp
next
  case Reset
  then show ?thesis using g by (simp add: reset_def global_ok_def same_config_def)
next
  case (SetParams ws)
  then show ?thesis using g by (simp add: set_params_def global_ok_def same_config_def)
qed

lemma run_inv:
  assumes c: "svd_contract svd"
  shows "global_ok st \<Longrightarrow> global_ok (run svd st calls) \<and> same_config st (run svd st calls)"
proof (induction calls arbitrary: st)
  case Nil
  then show ?case by (simp add: same_config_def)
next
  case (Cons call calls)
  from exec_inv [OF c Cons.prems, of call]
  have g: "global_ok (snd (exec svd st call))" and s: "same_config st (snd (exec svd st call))"
    by simp_all
  from Cons.IH [OF g] s show ?case by (simp add: same_config_def)
qed

lemma run_dim:
  assumes c: "svd_contract svd"
  shows "global_ok st \<Longrightarrow> list_all (call_dim f) calls \<Longrightarrow>
         \<forall>k<length (ug st). nrows (ug st ! k) = Suc f \<Longrightarrow>
         \<forall>k<length (ug (run svd st calls)). nrows (ug (run svd st calls) ! k) = Suc f"
proof (induction calls arbitrary: st)
  case Nil
  then show ?case by simp
next
  case (Cons call calls)
  let ?st = "snd (exec svd st call)"
  have g: "global_ok ?st" using exec_inv [OF c Cons.prems(1)] by simp
  have d: "\<forall>k<length (ug ?st). nrows (ug ?st ! k) = Suc f"
  proof (cases call)
    case (AggregateUpdate X d)
    obtain r st' where r: "aggregate_update svd st X d = (r, st')" by force
    from Cons.prems(2) AggregateUpdate have "ncols X = f" by simp
    with aggregate_update_inv [OF c Cons.prems(1) r] Cons.prems(3) AggregateUpdate r
    show ?thesis by simp
  next
    case Reset
    then show ?thesis by (simp add: reset_def)
  next
    case (SetParams ws)
    then show ?thesis using Cons.prems(3) by (simp add: set_params_def)
  qed
  from Cons.IH [OF g _ d] Cons.prems(2) show ?case by simp
qed

lemma fresh_run_w:
  assumes c: "svd_contract svd"
  shows "global_ok st \<Longrightarrow> (fr \<longrightarrow> w st = None) \<Longrightarrow> fresh_run svd fr st calls \<Longrightarrow>
         w (run svd st calls) = None"
proof (induction calls arbitrary: st fr)
  case Nil
  then show ?case by simp
next
  case (Cons call calls)
  show ?case
  proof (cases call)
    case (AggregateUpdate X d)
    obtain r st' where r: "aggregate_update svd st X d = (r, st')" by force
    from aggregate_update_inv [OF c Cons.prems(1) r]
    have g': "global_ok st'" and rw: "raised r \<longrightarrow> w st' = w st" by blast+
    have f: "fresh_run svd (fr \<and> raised r) st' calls"
      using Cons.prems(3) AggregateUpdate r by simp
    have "(fr \<and> raised r) \<longrightarrow> w st' = None"
      using rw Cons.prems(2) by simp
    with g' have "w (run svd st' calls) = None"
      using f by (rule Cons.IH)
    then show ?thesis using AggregateUpdate r by simp
  next
    case Reset
    have "global_ok (reset st)" using Cons.prems(1) by (simp add: reset_def global_ok_def)
    moreover have "True \<longrightarrow> w (reset st) = None" by (simp add: reset_def)
    moreover have "fresh_run svd True (reset st) calls" using Cons.prems(3) Reset by simp
    ultimately have "w (run svd (reset st) calls) = None" by (rule Cons.IH)
    then show ?thesis using Reset by simp
  next
    case (SetParams ws)
    have "global_ok (set_params st ws)" using Cons.prems(1) by (simp add: set_params_def global_ok_def)
    moreover have "False \<longrightarrow> w (set_params st ws) = None" by simp
    moreover have "fresh_run svd False (set_params st ws) calls" using Cons.prems(3) SetParams by simp
    ultimately have "w (run svd (set_params st ws) calls) = None" by (rule Cons.IH)
    then show ?thesis using SetParams by simp
  qed
qed

lemma run_len:
  assumes c: "svd_contract svd"
  shows "global_ok st \<Longrightarrow> mg st = [] \<or> length (mg st) = num_classes st \<Longrightarrow>
         mg (run svd st calls) = [] \<or> length (mg (run svd st calls)) = num_classes st"
proof (induction calls arbitrary: st)
  case Nil
  then show ?case by simp
next
  case (Cons call calls)
  let ?st = "snd (exec svd st call)"
  from exec_inv [OF c Cons.prems(1), of call]
  have g: "global_ok ?st" and nc: "num_classes ?st = num_classes st"
    by (simp_all add: same_config_def)
  have l: "mg ?st = [] \<or> length (mg ?st) = num_classes ?st"
  proof (cases call)
    case (AggregateUpdate X d)
    obtain r st' where r: "aggregate_update svd st X d = (r, st')" by force
    from aggregate_update_inv [OF c Cons.prems(1) r]
    have "length (mg st') = length (mg st) \<or> length (mg st') = num_classes st"
      and "num_classes st' = num_classes st"
      by (simp_all add: same_config_def)
    with Cons.prems(2) AggregateUpdate r show ?thesis by auto
  next
    case Reset
    then show ?thesis by (simp add: reset_def)
  next
    case (SetParams ws)
    then show ?thesis using Cons.prems(2) by (simp add: set_params_def)
  qed
  from Cons.IH [OF g l] nc show ?case by simp
qed

lemma vadd_same_length:
  "length a = length b \<Longrightarrow> vadd a b = Inr x \<Longrightarrow> x = map2 (+) a b"
  by (auto simp: vadd_def vec_of_def intro!: nth_equalityI)

lemma calculate_loop_fields:
  "calculate_loop cs st = (r, st') \<Longrightarrow> mg st' = mg st \<and> ug st' = ug st \<and> sg st' = sg st"
proof (induction cs arbitrary: st)
  case Nil
  then show ?case by simp
next
  case (Cons c cs)
  then show ?case
    by (auto split: sum.splits option.splits)
qed

lemma priv_calculate_weights_fields:
  "priv_calculate_weights st = (r, st') \<Longrightarrow> mg st' = mg st \<and> ug st' = ug st \<and> sg st' = sg st"
  by (auto simp: priv_calculate_weights_def Let_def split: if_splits dest: calculate_loop_fields)

lemma aggregate_update_None:
  assumes "aggregate_update svd st X d = (None, st')"
  obtains st1 st2 where "update_weights svd st X d = (None, st1)"
    "priv_aggregate_parcial svd st1 = (None, st2)" "priv_calculate_weights st2 = (None, st')"
  using assms unfolding aggregate_update_def
  by (auto split: prod.splits option.splits)

lemma aggregate_update_entries:
  assumes "aggregate_update svd st X d = (None, st')" and "c < num_classes st"
  shows "\<exists>dc Ml Ul Sl.
      column d c = Inr dc \<and> priv_update_weights svd st X dc = Inr (Ml, Ul, Sl)
      \<and> (mg st = [] \<and> ug st = [] \<and> sg st = [] \<longrightarrow>
            mg st' ! c = Ml \<and> ug st' ! c = Ul \<and> sg st' ! c = Sl)
      \<and> (mg st \<noteq> [] \<longrightarrow>
            (\<exists>us_k US C.
               vadd (mg st ! c) Ml = Inr (mg st' ! c)
               \<and> matmul Ul (diag Sl) = Inr us_k
               \<and> matmul (ug st ! c) (diag (sg st ! c)) = Inr US
               \<and> cat1 us_k US = Inr C
               \<and> svd C = Inr (ug st' ! c, sg st' ! c)
               \<and> (svd_contract svd \<longrightarrow> (\<exists>V. svd_of C (ug st' ! c) (sg st' ! c) V))
               \<and> (svd_contract svd \<and> global_ok st \<longrightarrow>
                    mg st' ! c = map2 (+) (mg st ! c) Ml)))"
proof -
  from assms(1) obtain st1 st2 where
    uw: "update_weights svd st X d = (None, st1)" and
    ap: "priv_aggregate_parcial svd st1 = (None, st2)" and
    cw: "priv_calculate_weights st2 = (None, st')"
    by (rule aggregate_update_None)
  from update_weights_None [OF uw] obtain ml ul sl where
    st1: "st1 = st\<lparr>m := Some ml, u := Some ul, s := Some sl\<rparr>" and
    len: "length ml = num_classes st" "length ul = num_classes st" "length sl = num_classes st" and
    ent: "\<forall>k < num_classes st.
            bindE (column d k) (priv_update_weights svd st X) = Inr (ml ! k, ul ! k, sl ! k)"
    by blast
  from ent assms(2) obtain dc where
    dc: "column d c = Inr dc" "priv_update_weights svd st X dc = Inr (ml ! c, ul ! c, sl ! c)"
    by (auto simp: bindE_Inr)
  from priv_calculate_weights_fields [OF cw]
  have same: "mg st' = mg st2" "ug st' = ug st2" "sg st' = sg st2" by simp_all
  have run: "aggregate_loop svd [0..<num_classes st] False st1 = (None, st2)"
    using ap st1 by (simp add: priv_aggregate_parcial_def)
  have A: "mg st' ! c = ml ! c \<and> ug st' ! c = ul ! c \<and> sg st' ! c = sl ! c"
    if e: "mg st = [] \<and> ug st = [] \<and> sg st = []"
  proof -
    have b: "\<forall>k\<in>set [0..<num_classes st]. k < length ml \<and> k < length ul \<and> k < length sl"
      using len by simp
    have e1: "mg st1 = []" using e st1 by simp
    have "aggregate_loop svd [0..<num_classes st] False st1 =
          (None, st1\<lparr>mg := mg st1 @ map ((!) ml) [0..<num_classes st],
                        ug := ug st1 @ map ((!) ul) [0..<num_classes st],
                        sg := sg st1 @ map ((!) sl) [0..<num_classes st]\<rparr>)"
      using aggregate_loop_init [of st1 ml ul sl "[0..<num_classes st]" svd] b st1
        aggregate_loop_empty [OF e1]
      by simp
    with run e st1 have "mg st2 = map ((!) ml) [0..<num_classes st]"
      "ug st2 = map ((!) ul) [0..<num_classes st]" "sg st2 = map ((!) sl) [0..<num_classes st]"
      by auto
    with same assms(2) show ?thesis by simp
  qed
  have B: "\<exists>us_k US C.
               vadd (mg st ! c) (ml ! c) = Inr (mg st' ! c)
               \<and> matmul (ul ! c) (diag (sl ! c)) = Inr us_k
               \<and> matmul (ug st ! c) (diag (sg st ! c)) = Inr US
               \<and> cat1 us_k US = Inr C
               \<and> svd C = Inr (ug st' ! c, sg st' ! c)
               \<and> (svd_contract svd \<longrightarrow> (\<exists>V. svd_of C (ug st' ! c) (sg st' ! c) V))
               \<and> (svd_contract svd \<and> global_ok st \<longrightarrow>
                    mg st' ! c = map2 (+) (mg st ! c) (ml ! c))"
    if ne: "mg st \<noteq> []"
  proof -
    have ne1: "mg st1 \<noteq> []" using ne st1 by simp
    from aggregate_loop_merge_entries [OF _ ne1 run] assms(2)
    have me: "merged_entry svd st1 c = Inr (mg st2 ! c, ug st2 ! c, sg st2 ! c)" by simp
    then obtain us_k US C where
      parts: "vadd (mg st ! c) (ml ! c) = Inr (mg st2 ! c)"
        "matmul (ul ! c) (diag (sl ! c)) = Inr us_k"
        "matmul (ug st ! c) (diag (sg st ! c)) = Inr US"
        "cat1 us_k US = Inr C"
        "svd C = Inr (ug st2 ! c, sg st2 ! c)"
      using st1
      by (auto simp: merged_entry_def bindE_Inr index_Inr index_opt_Inr split: if_splits)
    from cat1_wf [OF parts(4)] have "wf_mat C" by simp
    with parts(5) have "svd_contract svd \<longrightarrow> (\<exists>V. svd_of C (ug st2 ! c) (sg st2 ! c) V)"
      by (auto simp: svd_contract_def)
    moreover have "mg st2 ! c = map2 (+) (mg st ! c) (ml ! c)"
      if h: "svd_contract svd \<and> global_ok st"
    proof -
      from merged_entry_bounds [OF me] st1 have cm: "c < length (mg st)" by simp
      with h have "length (mg st ! c) = nrows (ug st ! c)"
        by (simp add: global_ok_def stats_ok_def)
      moreover from priv_update_weights_shapes [OF _ dc(2)] h
      have "length (ml ! c) = nrows (ul ! c)" by (simp add: stats_ok_def)
      moreover from matmul_wf [OF parts(2)] matmul_wf [OF parts(3)] cat1_wf [OF parts(4)]
      have "nrows (ug st ! c) = nrows (ul ! c)" by simp
      ultimately have "length (mg st ! c) = length (ml ! c)" by simp
      from vadd_same_length [OF this parts(1)] show ?thesis .
    qed
    ultimately show ?thesis using parts same by auto
  qed
  from dc A B show ?thesis by blast
qed

section \<open>Facts about the samples of a batch\<close>

lemma pseudo_target_nth:
  "finv a d = Inr z \<Longrightarrow> t < length d \<Longrightarrow> z ! t = pseudo_target a (d ! t)"
  using nth_finv [of a d z t] by (simp add: pseudo_target_def)

lemma weighted_design_entry:
  assumes "finv a d = Inr z" "length d = nrows X" "i < Suc (ncols X)" "t < nrows X"
  shows "entry (weighted_design a X z) i t = sample_entry a i (rows X ! t) (d ! t)"
proof -
  have e: "entry X t (i - 1) = rows X ! t ! (i - 1)" by (simp add: entry_def)
  from assms pseudo_target_nth [of a d z t] show ?thesis
    by (simp add: weighted_design_def sample_entry_def e [simplified])
qed

lemma moment_entry:
  assumes "finv a d = Inr z" "length d = nrows X" "i < Suc (ncols X)"
  shows "moment a X z ! i =
     (\<Sum>t<nrows X. sample_entry a i (rows X ! t) (d ! t)
         * (fderiv1 a (pseudo_target a (d ! t)) * pseudo_target a (d ! t)))"
proof -
  have "moment a X z ! i =
      (\<Sum>t<nrows X. entry (design X) i t * (fderiv1 a (z ! t) * (fderiv1 a (z ! t) * z ! t)))"
    using assms(3) by (simp add: moment_def)
  also have "\<dots> = (\<Sum>t<nrows X. sample_entry a i (rows X ! t) (d ! t)
         * (fderiv1 a (pseudo_target a (d ! t)) * pseudo_target a (d ! t)))"
  proof (rule sum.cong [OF refl])
    fix t assume "t \<in> {..<nrows X}"
    then have t: "t < nrows X" by simp
    with assms have z: "z ! t = pseudo_target a (d ! t)" by (simp add: pseudo_target_nth)
    have e: "entry X t (i - 1) = rows X ! t ! (i - 1)" by (simp add: entry_def)
    show "entry (design X) i t * (fderiv1 a (z ! t) * (fderiv1 a (z ! t) * z ! t)) =
        sample_entry a i (rows X ! t) (d ! t)
         * (fderiv1 a (pseudo_target a (d ! t)) * pseudo_target a (d ! t))"
      using assms(3) t by (simp add: z sample_entry_def e [simplified])
  qed
  finally show ?thesis .
qed

lemma gram_samples:
  assumes "finv a d = Inr z" "length d = nrows X" "wf_mat X" "i < Suc (ncols X)" "j < Suc (ncols X)"
  shows "(\<Sum>t<nrows X. entry (weighted_design a X z) i t * entry (weighted_design a X z) j t)
     = sum_mset (image_mset (\<lambda>(x, u). sample_entry a i x u * sample_entry a j x u)
                  (mset (zip (rows X) d)))"
proof -
  have "(\<Sum>t<nrows X. entry (weighted_design a X z) i t * entry (weighted_design a X z) j t)
      = (\<Sum>t<nrows X. sample_entry a i (rows X ! t) (d ! t) * sample_entry a j (rows X ! t) (d ! t))"
    using assms by (intro sum.cong refl) (simp add: weighted_design_entry)
  also have "\<dots> = sum_mset (image_mset (\<lambda>(x, u). sample_entry a i x u * sample_entry a j x u)
                  (mset (zip (rows X) d)))"
    using assms(2,3) by (intro sum_zip_mset) (simp_all add: wf_mat_def)
  finally show ?thesis .
qed

lemma moment_samples:
  assumes "finv a d = Inr z" "length d = nrows X" "wf_mat X" "i < Suc (ncols X)"
  shows "moment a X z ! i
     = sum_mset (image_mset (\<lambda>(x, u). sample_entry a i x u
                    * (fderiv1 a (pseudo_target a u) * pseudo_target a u))
                  (mset (zip (rows X) d)))"
proof -
  have "moment a X z ! i = (\<Sum>t<nrows X. sample_entry a i (rows X ! t) (d ! t)
         * (fderiv1 a (pseudo_target a (d ! t)) * pseudo_target a (d ! t)))"
    using assms by (simp add: moment_entry)
  also have "\<dots> = sum_mset (image_mset (\<lambda>(x, u). sample_entry a i x u
                    * (fderiv1 a (pseudo_target a u) * pseudo_target a u))
                  (mset (zip (rows X) d)))"
    using assms(2,3)
    by (intro sum_zip_mset [where F = "\<lambda>x u. sample_entry a i x u
                    * (fderiv1 a (pseudo_target a u) * pseudo_target a u)"])
      (simp_all add: wf_mat_def)
  finally show ?thesis .
qed

lemma moment_as_product:
  assumes "finv a d = Inr z" "length d = nrows X" "i < Suc (ncols X)"
  shows "moment a X z ! i =
     (\<Sum>t<nrows X. entry (weighted_design a X z) i t
         * (fderiv1 a (pseudo_target a (d ! t)) * pseudo_target a (d ! t)))"
  using assms by (simp add: moment_entry weighted_design_entry cong: sum.cong_simp)

lemma batch_summary:
  assumes c: "svd_contract svd" and r: "priv_update_weights svd st X d = Inr (M, U, S)"
  shows "\<exists>a z V. activation st = Some a \<and> finv a d = Inr z \<and> length d = nrows X
           \<and> svd_of (weighted_design a X z) U S V \<and> M = moment a X z"
proof -
  from r obtain a z where a: "activation st = Some a" and z: "finv a d = Inr z"
    and n: "length d = nrows X" and s: "svd (weighted_design a X z) = Inr (U, S)"
    and M: "M = moment a X z"
    by (auto simp: priv_update_weights_eq bindE_Inr split: option.splits if_splits)
  have wf: "wf_mat (weighted_design a X z)" by (simp add: weighted_design_def)
  from c [unfolded svd_contract_def, rule_format, OF wf s]
  obtain V where "svd_of (weighted_design a X z) U S V" ..
  with a z n M show ?thesis by auto
qed

lemma svd_of_shapes:
  "svd_of H U S V \<Longrightarrow>
   nrows U = nrows H \<and> ncols U = min (nrows H) (ncols H) \<and> length S = min (nrows H) (ncols H)"
  by (simp add: svd_of_def)

lemma weighted_design_shape [simp]:
  "nrows (weighted_design a X z) = Suc (ncols X)" "ncols (weighted_design a X z) = nrows X"
  "wf_mat (weighted_design a X z)"
  by (simp_all add: weighted_design_def)

lemma length_moment [simp]: "length (moment a X z) = Suc (ncols X)"
  by (simp add: moment_def)

lemma class_merge_equivalence:
  assumes c: "svd_contract svd" and lam: "0 \<le> l"
    and full: "priv_update_weights svd st X d = Inr (M, U, S)"
    and b1: "priv_update_weights svd st1 X1 d1 = Inr (M1, U1, S1)"
    and b2: "priv_update_weights svd st2 X2 d2 = Inr (M2, U2, S2)"
    and act: "activation st1 = activation st" "activation st2 = activation st"
    and dims: "ncols X1 = ncols X" "ncols X2 = ncols X"
    and wf: "wf_mat X" "wf_mat X1" "wf_mat X2"
    and part: "mset (zip (rows X) d) = mset (zip (rows X1) d1) + mset (zip (rows X2) d2)"
    and merge: "vadd M1 M2 = Inr Mc" "matmul U2 (diag S2) = Inr us"
      "matmul U1 (diag S1) = Inr US" "cat1 us US = Inr C" "svd C = Inr (Uc, Sc)"
    and wts: "calculate_weights_class sp l M U S = Inr v"
      "calculate_weights_class sp l Mc Uc Sc = Inr vc"
  shows "v = vc"
proof -
  let ?p = "Suc (ncols X)"
  from batch_summary [OF c full] obtain a z V where
    a: "activation st = Some a" and z: "finv a d = Inr z" and n: "length d = nrows X"
    and sv: "svd_of (weighted_design a X z) U S V" and M: "M = moment a X z"
    by auto
  from batch_summary [OF c b1] act(1) a obtain z1 V1 where
    z1: "finv a d1 = Inr z1" and n1: "length d1 = nrows X1"
    and sv1: "svd_of (weighted_design a X1 z1) U1 S1 V1" and M1: "M1 = moment a X1 z1"
    by auto
  from batch_summary [OF c b2] act(2) a obtain z2 V2 where
    z2: "finv a d2 = Inr z2" and n2: "length d2 = nrows X2"
    and sv2: "svd_of (weighted_design a X2 z2) U2 S2 V2" and M2: "M2 = moment a X2 z2"
    by auto
  let ?H = "weighted_design a X z" and ?H1 = "weighted_design a X1 z1"
    and ?H2 = "weighted_design a X2 z2"
  let ?r = "min ?p (nrows X)" and ?r1 = "min ?p (nrows X1)" and ?r2 = "min ?p (nrows X2)"
  from svd_of_shapes [OF sv] have sh: "nrows U = ?p" "ncols U = ?r" "length S = ?r" by simp_all
  from svd_of_shapes [OF sv1] dims
  have sh1: "nrows U1 = ?p" "ncols U1 = ?r1" "length S1 = ?r1" by simp_all
  from svd_of_shapes [OF sv2] dims
  have sh2: "nrows U2 = ?p" "ncols U2 = ?r2" "length S2 = ?r2" by simp_all
  from svd_of_factored [OF sv]
  have f: "factored ?p (nrows X) ?r (entry ?H) (entry U) ((!) S) (entry V)" by simp
  from svd_of_factored [OF sv1] dims
  have f1: "factored ?p (nrows X1) ?r1 (entry ?H1) (entry U1) ((!) S1) (entry V1)" by simp
  from svd_of_factored [OF sv2] dims
  have f2: "factored ?p (nrows X2) ?r2 (entry ?H2) (entry U2) ((!) S2) (entry V2)" by simp
  \<comment> \<open>the concatenated matrix\<close>
  have us: "us = mat_of ?p ?r2 (\<lambda>i j. entry U2 i j * S2 ! j)"
    using merge(2) sh2 by (simp add: matmul_diag_right)
  have US: "US = mat_of ?p ?r1 (\<lambda>i j. entry U1 i j * S1 ! j)"
    using merge(3) sh1 by (simp add: matmul_diag_right)
  have Cshape: "nrows C = ?p" "ncols C = ?r2 + ?r1" "wf_mat C"
    using cat1_wf [OF merge(4)] by (simp_all add: us US)
  have Centry: "\<forall>i<?p. \<forall>t<?r2 + ?r1. entry C i t =
      (if t < ?r2 then entry U2 i t * S2 ! t else entry U1 i (t - ?r2) * S1 ! (t - ?r2))"
  proof (intro allI impI)
    fix i t assume i: "i < ?p" and t: "t < ?r2 + ?r1"
    have ush: "nrows us = ?p" "ncols us = ?r2" "ncols US = ?r1"
      by (simp_all add: us US)
    have Ceq: "C = mat_of (nrows us) (ncols us + ncols US)
        (\<lambda>i j. if j < ncols us then entry us i j else entry US i (j - ncols us))"
      using merge(4) by (auto simp: cat1_def split: if_splits)
    have "entry C i t = (if t < ?r2 then entry us i t else entry US i (t - ?r2))"
      by (subst Ceq) (use i t ush in simp)
    also have "\<dots> = (if t < ?r2 then entry U2 i t * S2 ! t
                        else entry U1 i (t - ?r2) * S1 ! (t - ?r2))"
    proof (cases "t < ?r2")
      case True
      have "entry us i t = entry U2 i t * S2 ! t"
        unfolding us by (rule entry_mat_of [OF i True])
      with True show ?thesis by (simp only: if_True)
    next
      case False
      with t have lt: "t - ?r2 < ?r1" by linarith
      have "entry US i (t - ?r2) = entry U1 i (t - ?r2) * S1 ! (t - ?r2)"
        unfolding US by (rule entry_mat_of [OF i lt])
      with False show ?thesis by (simp only: if_False)
    qed
    finally show "entry C i t =
      (if t < ?r2 then entry U2 i t * S2 ! t else entry U1 i (t - ?r2) * S1 ! (t - ?r2))" .
  qed
  from c [unfolded svd_contract_def, rule_format, OF Cshape(3) merge(5)]
  obtain Vc where svc: "svd_of C Uc Sc Vc" ..
  let ?rc = "min ?p (?r2 + ?r1)"
  from svd_of_shapes [OF svc] Cshape
  have shc: "nrows Uc = ?p" "ncols Uc = ?rc" "length Sc = ?rc" by simp_all
  from svd_of_factored [OF svc] Cshape
  have fc: "factored ?p (?r2 + ?r1) ?rc (entry C) (entry Uc) ((!) Sc) (entry Vc)" by simp
  \<comment> \<open>sums over the samples\<close>
  have gram: "\<forall>i<?p. \<forall>j<?p. (\<Sum>t<nrows X. entry ?H i t * entry ?H j t)
      = (\<Sum>t<nrows X1. entry ?H1 i t * entry ?H1 j t) + (\<Sum>t<nrows X2. entry ?H2 i t * entry ?H2 j t)"
  proof (intro allI impI)
    fix i j assume i: "i < ?p" and j: "j < ?p"
    from i j dims have i1: "i < Suc (ncols X1)" "j < Suc (ncols X1)"
      and i2: "i < Suc (ncols X2)" "j < Suc (ncols X2)" by simp_all
    show "(\<Sum>t<nrows X. entry ?H i t * entry ?H j t)
      = (\<Sum>t<nrows X1. entry ?H1 i t * entry ?H1 j t) + (\<Sum>t<nrows X2. entry ?H2 i t * entry ?H2 j t)"
      by (simp only: gram_samples [OF z n wf(1) i j] gram_samples [OF z1 n1 wf(2) i1]
          gram_samples [OF z2 n2 wf(3) i2] part image_mset_union sum_mset.union)
  qed
  define y where "y t = fderiv1 a (pseudo_target a (d ! t)) * pseudo_target a (d ! t)" for t
  define y1 where "y1 t = fderiv1 a (pseudo_target a (d1 ! t)) * pseudo_target a (d1 ! t)" for t
  define y2 where "y2 t = fderiv1 a (pseudo_target a (d2 ! t)) * pseudo_target a (d2 ! t)" for t
  have Mp: "\<forall>i<?p. M ! i = (\<Sum>t<nrows X. entry ?H i t * y t)"
    unfolding M y_def using moment_as_product [OF z n] by simp
  have Mp1: "\<forall>i<?p. M1 ! i = (\<Sum>t<nrows X1. entry ?H1 i t * y1 t)"
    unfolding M1 y1_def using moment_as_product [OF z1 n1] dims by simp
  have Mp2: "\<forall>i<?p. M2 ! i = (\<Sum>t<nrows X2. entry ?H2 i t * y2 t)"
    unfolding M2 y2_def using moment_as_product [OF z2 n2] dims by simp
  have Madd: "\<forall>i<?p. M ! i = M1 ! i + M2 ! i"
  proof (intro allI impI)
    fix i assume i: "i < ?p"
    from i dims have i1: "i < Suc (ncols X1)" and i2: "i < Suc (ncols X2)" by simp_all
    show "M ! i = M1 ! i + M2 ! i"
      unfolding M M1 M2
      by (simp only: moment_samples [OF z n wf(1) i] moment_samples [OF z1 n1 wf(2) i1]
          moment_samples [OF z2 n2 wf(3) i2] part image_mset_union sum_mset.union)
  qed
  \<comment> \<open>the two factorisations have one Gram matrix, and the moment vector is in its range\<close>
  note mf = merge_factorisations [OF f f1 f2 fc Centry gram Mp Mp1 Mp2 Madd]
  from mf(2) obtain b where Mb: "\<forall>i<?p. M ! i = (\<Sum>k<?r. entry U i k * S ! k * b k)" ..
  from mf(3) obtain bc where Mbc: "\<forall>i<?p. M ! i = (\<Sum>k<?rc. entry Uc i k * Sc ! k * bc k)" ..
  have G': "\<forall>i<?p. \<forall>j<?p. (\<Sum>k<?rc. entry Uc i k * Sc ! k * (entry Uc j k * Sc ! k))
      = (\<Sum>k<?r. entry U i k * S ! k * (entry U j k * S ! k))"
    using mf(1) by simp
  from f have oU: "\<forall>k<?r. \<forall>l<?r. (\<Sum>j<?p. entry U j k * entry U j l) = (if k = l then 1 else 0)"
    by (simp add: factored_def)
  from fc have oUc: "\<forall>k<?rc. \<forall>l<?rc. (\<Sum>j<?p. entry Uc j k * entry Uc j l) = (if k = l then 1 else 0)"
    by (simp add: factored_def)
  from sv sh have nn: "\<forall>k<?r. 0 \<le> S ! k"
    by (simp add: svd_of_def list_all_length)
  from svc shc have nnc: "\<forall>k<?rc. 0 \<le> Sc ! k"
    by (simp add: svd_of_def list_all_length)
  \<comment> \<open>the two factors have the same number of columns\<close>
  have "size (mset (zip (rows X) d)) = size (mset (zip (rows X1) d1)) + size (mset (zip (rows X2) d2))"
    by (simp only: part size_union)
  with n n1 n2 wf have nsum: "nrows X = nrows X1 + nrows X2"
    by (simp add: wf_mat_def)
  then have req: "?rc = ?r" by simp
  \<comment> \<open>equal singular values get equal diagonal factors\<close>
  have gg: "\<forall>k<?r. \<forall>j<?rc. S ! k = Sc ! j \<longrightarrow> solver_diag sp l S ! k = solver_diag sp l Sc ! j"
  proof (cases sp)
    case False
    then show ?thesis using sh shc by (simp add: nth_solver_diag)
  next
    case True
    have a: "\<forall>k<length S. S ! k \<noteq> 0 \<longrightarrow> (\<exists>j<length Sc. Sc ! j = S ! k)"
      unfolding sh(3) shc(3)
      using shared_values [OF oUc oU G' nnc nn] by blast
    have b: "\<forall>j<length Sc. Sc ! j \<noteq> 0 \<longrightarrow> (\<exists>k<length S. S ! k = Sc ! j)"
      unfolding sh(3) shc(3)
      using shared_values [OF oU oUc mf(1) nn nnc] by blast
    have len: "length S = length Sc" using sh(3) shc(3) req by simp
    from cut_off_shared [OF lam len a b] have "cut_off l S = cut_off l Sc" .
    then show ?thesis using sh shc by (simp add: nth_solver_diag)
  qed
  \<comment> \<open>the two weight vectors\<close>
  have lenM: "length M = ?p" "length M1 = ?p" "length M2 = ?p"
    using dims by (simp_all add: M M1 M2)
  have Mc: "length Mc = ?p" "\<forall>i<?p. Mc ! i = M ! i"
    using merge(1) lenM Madd by (auto simp: vadd_def)
  from calculate_weights_class_entries [OF wts(1)] sh lenM
  have v: "length v = ?p"
    "\<forall>i<?p. v ! i = (\<Sum>k<?r. entry U i k *
        (solver_diag sp l S ! k * (\<Sum>j<?p. entry U j k * M ! j)))"
    by simp_all
  from calculate_weights_class_entries [OF wts(2)] shc Mc(1)
  have vc0: "length vc = ?p"
    "\<forall>i<?p. vc ! i = (\<Sum>k<?rc. entry Uc i k *
        (solver_diag sp l Sc ! k * (\<Sum>j<?p. entry Uc j k * Mc ! j)))"
    by simp_all
  have vc: "\<forall>i<?p. vc ! i = (\<Sum>k<?rc. entry Uc i k *
        (solver_diag sp l Sc ! k * (\<Sum>j<?p. entry Uc j k * M ! j)))"
  proof (intro allI impI)
    fix i assume i: "i < ?p"
    have "(\<Sum>j<?p. entry Uc j k * Mc ! j) = (\<Sum>j<?p. entry Uc j k * M ! j)" for k
      using Mc(2) by (intro sum.cong refl) simp
    with vc0(2) i show "vc ! i = (\<Sum>k<?rc. entry Uc i k *
        (solver_diag sp l Sc ! k * (\<Sum>j<?p. entry Uc j k * M ! j)))"
      by simp
  qed
  from spectral_independence [OF oU oUc mf(1) nn nnc Mb Mbc gg v(2) vc]
  have "\<forall>i<?p. v ! i = vc ! i" .
  with v(1) vc0(1) show ?thesis by (intro nth_equalityI) simp_all
qed

lemma column_rows:
  assumes "wf_mat D" "column D c = Inr d"
  shows "d = map (\<lambda>row. row ! c) (rows D)"
proof -
  from assms(2) have "d = vec_of (nrows D) (\<lambda>k. entry D k c)"
    by (auto simp: column_def split: if_splits)
  also have "\<dots> = map (\<lambda>k. (rows D ! k) ! c) [0..<length (rows D)]"
    using assms(1) by (simp add: vec_of_def entry_def wf_mat_def)
  also have "\<dots> = map (\<lambda>row. row ! c) (rows D)"
    by (rule nth_equalityI) simp_all
  finally show ?thesis .
qed

lemma partition_class:
  assumes "mset (zip xs ys) = mset (zip xs1 ys1) + mset (zip xs2 ys2)"
  shows "mset (zip xs (map f ys)) = mset (zip xs1 (map f ys1)) + mset (zip xs2 (map f ys2))"
proof -
  have e: "mset (zip as (map f bs)) = image_mset (\<lambda>(x, y). (x, f y)) (mset (zip as bs))"
    for as :: "'a list" and bs
    by (simp add: zip_map2)
  show ?thesis by (simp only: e assms image_mset_union)
qed

lemma global_ok_empty: "mg st = [] \<Longrightarrow> ug st = [] \<Longrightarrow> sg st = [] \<Longrightarrow> global_ok st"
  by (simp add: global_ok_def)

section \<open>Facts about the worked example\<close>

lemmas ex_defs = ex_d_bad_def ex_X1_def ex_d1_def ex_X2_def ex_d2_def ex_X_def ex_d_def ex_U_def ex_svd_def
  ex_st0_def ex_st1_def ex_st2_def ex_st3_def

lemmas run_defs = aggregate_update_def update_weights_def priv_update_weights_def
  priv_aggregate_parcial_def first_entry_def merged_entry_def priv_calculate_weights_def
  calculate_weights_class_def

lemma ex_init: "init 1 (1 / 100) ''lin'' False 0 = Inr ex_st0"
  by (simp add: init_def ex_st0_def)

lemma ex_first: "aggregate_update ex_svd ex_st0 ex_X1 ex_d1 = (None, ex_st1)"
  by (simp add: run_defs ex_defs eval_defs eval_nat_numeral)


lemma ex_second: "aggregate_update ex_svd ex_st1 ex_X2 ex_d2 = (None, ex_st2)"
  by (simp add: run_defs ex_defs eval_defs eval_nat_numeral)

lemma ex_full: "aggregate_update ex_svd ex_st0 ex_X ex_d = (None, ex_st3)"
  by (simp add: run_defs ex_defs eval_defs eval_nat_numeral)

lemmas svd_of_eval = svd_of_def orthonormal_cols_def wf_mat_def eval_defs eval_nat_numeral

lemma ex_svd_contract: "svd_contract ex_svd"
  unfolding svd_contract_def
proof (intro allI impI)
  fix H U S
  assume "wf_mat H" and r: "ex_svd H = Inr (U, S)"
  from r consider
      "H = Mat 2 1 [[1], [3 / 4]]" "U = Mat 2 1 [[4 / 5], [3 / 5]]" "S = [5 / 4]"
    | "H = Mat 2 1 [[1], [- (4 / 3)]]" "U = Mat 2 1 [[3 / 5], [- (4 / 5)]]" "S = [5 / 3]"
    | "H = Mat 2 2 [[1, 1], [- (4 / 3), 3 / 4]]" "U = ex_U" "S = [5 / 3, 5 / 4]"
    | "H = Mat 2 2 [[1, 1], [3 / 4, - (4 / 3)]]" "U = ex_U" "S = [5 / 3, 5 / 4]"
    by (auto simp: ex_svd_def split: if_splits)
  then show "\<exists>V. svd_of H U S V"
  proof cases
    case 1
    have "svd_of H U S (Mat 1 1 [[1]])"
      unfolding 1 by (simp add: svd_of_eval)
    then show ?thesis ..
  next
    case 2
    have "svd_of H U S (Mat 1 1 [[1]])"
      unfolding 2 by (simp add: svd_of_eval)
    then show ?thesis ..
  next
    case 3
    have "svd_of H U S (Mat 2 2 [[1, 0], [0, 1]])"
      unfolding 3 by (simp add: svd_of_eval ex_U_def)
    then show ?thesis ..
  next
    case 4
    have "svd_of H U S (Mat 2 2 [[0, 1], [1, 0]])"
      unfolding 4 by (simp add: svd_of_eval ex_U_def)
    then show ?thesis ..
  qed
qed

lemma ex_run_two:
  "run ex_svd ex_st0 [AggregateUpdate ex_X1 ex_d1, AggregateUpdate ex_X2 ex_d2] = ex_st2"
  by (simp add: ex_first ex_second)

lemma ex_run_one: "run ex_svd ex_st0 [AggregateUpdate ex_X1 ex_d1] = ex_st1"
  by (simp add: ex_first)

lemma ex_forward:
  "forward ex_st2 (\<lambda>i j k. True) ex_X = Inr (Mat 2 1 [[625 / 629], [0]])"
  by (simp add: forward_def dropout_def ex_defs eval_defs eval_nat_numeral)

lemma ex_failed:
  "aggregate_update ex_svd (reset ex_st1) ex_X1 ex_d_bad = (Some IndexError, reset ex_st1)"
  by (simp add: run_defs ex_defs eval_defs reset_def)

lemma ex_forward_values:
  "forward ex_st2 (\<lambda>i j k. True) ex_X = Inr (Mat 2 1 [[625 / 629], [0]])"
  by (simp add: forward_def dropout_def ex_defs eval_defs eval_nat_numeral)

text \<open>The example with two classes.\<close>

lemmas ex2_defs = ex2_D1_def ex2_D2_def ex2_X_def ex2_D_def ex2_svd_def ex2_w_def
  ex2_st0_def ex2_st1_def ex2_st2_def ex2_st3_def

lemma ex2_first: "aggregate_update ex2_svd ex2_st0 ex_X1 ex2_D1 = (None, ex2_st1)"
  by (simp add: run_defs ex2_defs ex_defs eval_defs eval_nat_numeral)

lemma ex2_second: "aggregate_update ex2_svd ex2_st1 ex_X2 ex2_D2 = (None, ex2_st2)"
  by (simp add: run_defs ex2_defs ex_defs eval_defs eval_nat_numeral)

lemma ex2_full: "aggregate_update ex2_svd ex2_st0 ex2_X ex2_D = (None, ex2_st3)"
  by (simp add: run_defs ex2_defs ex_defs eval_defs eval_nat_numeral)

lemma ex2_svd_contract: "svd_contract ex2_svd"
  unfolding svd_contract_def
proof (intro allI impI)
  fix H U S
  assume "wf_mat H" and r: "ex2_svd H = Inr (U, S)"
  from r consider
      "H = Mat 2 1 [[1], [3 / 4]]" "U = Mat 2 1 [[4 / 5], [3 / 5]]" "S = [5 / 4]"
    | "H = Mat 2 1 [[1], [- (4 / 3)]]" "U = Mat 2 1 [[3 / 5], [- (4 / 5)]]" "S = [5 / 3]"
    | "H = Mat 2 2 [[1, 1], [- (4 / 3), 3 / 4]]" "U = ex_U" "S = [5 / 3, 5 / 4]"
    by (auto simp: ex2_svd_def split: if_splits)
  then show "\<exists>V. svd_of H U S V"
  proof cases
    case 1
    have "svd_of H U S (Mat 1 1 [[1]])"
      unfolding 1 by (simp add: svd_of_eval)
    then show ?thesis ..
  next
    case 2
    have "svd_of H U S (Mat 1 1 [[1]])"
      unfolding 2 by (simp add: svd_of_eval)
    then show ?thesis ..
  next
    case 3
    have "svd_of H U S (Mat 2 2 [[1, 0], [0, 1]])"
      unfolding 3 by (simp add: svd_of_eval ex_U_def)
    then show ?thesis ..
  qed
qed


lemma ex2_targets:
  "targets_ok Lin 2 ex_X1 ex2_D1" "targets_ok Lin 2 ex_X2 ex2_D2" "targets_ok Lin 2 ex2_X ex2_D"
  by (simp_all add: targets_ok_def ex2_defs ex_defs list_all_iff)


text \<open>The example of a singular value under the cut-off.\<close>

lemmas ex7_defs = ex7_X_def ex7_d_def ex7_svd_def ex7_st0_def

lemma ex7_svd_contract: "svd_contract ex7_svd"
  unfolding svd_contract_def
proof (intro allI impI)
  fix H U S
  assume "wf_mat H" and r: "ex7_svd H = Inr (U, S)"
  from r have 1: "H = Mat 2 2 [[1, 1], [24999999 / 10000, - (10000 / 24999999)]]"
    "U = Mat 2 2 [[10000 / 25000001, 24999999 / 25000001],
                         [24999999 / 25000001, - (10000 / 25000001)]]"
    "S = [25000001 / 10000, 25000001 / 24999999]"
    by (auto simp: ex7_svd_def split: if_splits)
  have "svd_of H U S (Mat 2 2 [[1, 0], [0, 1]])"
    unfolding 1 by (simp add: svd_of_eval)
  then show "\<exists>V. svd_of H U S V" ..
qed

lemma ex7_sparse:
  "fst (aggregate_update ex7_svd (ex7_st0 True) ex7_X ex7_d) = None
   \<and> w (snd (aggregate_update ex7_svd (ex7_st0 True) ex7_X ex7_d))
       = Some [[100000000 / 625000051000001, 249999990000 / 625000051000001]]"
  by (simp add: run_defs ex7_defs eval_defs eval_nat_numeral)

lemma ex7_dense:
  "fst (aggregate_update ex7_svd (ex7_st0 False) ex7_X ex7_d) = None
   \<and> w (snd (aggregate_update ex7_svd (ex7_st0 False) ex7_X ex7_d))
       = Some [[39062506375000365000010200000100 / 39453131313125378700010101000101,
                156249956250001749999990000 / 39453131313125378700010101000101]]"
  by (simp add: run_defs ex7_defs eval_defs eval_nat_numeral)

lemma ex7_forward:
  "forward (snd (aggregate_update ex7_svd (ex7_st0 True) ex7_X ex7_d)) (\<lambda>i j k. True) ex7_X
     = Inr (Mat 2 1 [[625000050000001 / 625000051000001], [0]])
   \<and> forward (snd (aggregate_update ex7_svd (ex7_st0 False) ex7_X ex7_d)) (\<lambda>i j k. True) ex7_X
     = Inr (Mat 2 1 [[625000050000001 / 625000051000001], [62500005000000100 / 63125004950000101]])"
  by (simp add: run_defs forward_def dropout_def ex7_defs eval_defs eval_nat_numeral)

section \<open>The weight solver\<close>

text \<open>
  C2. With \<open>sparse = False\<close> the weight solver returns the vector
  \<open>U \<cdot> diag(1/(S\<^sup>2 + \<lambda>)) \<cdot> U\<^sup>T \<cdot> M\<close> of the specification: the nested products of the
  code and the product of the three matrices applied to \<open>M\<close> are the same outcome for
  all statistics and every \<open>\<lambda>\<close>, and that outcome is a vector as long as \<open>M\<close> when
  the shapes of the statistics fit and no denominator \<open>S\<^sub>i\<^sup>2 + \<lambda>\<close> is zero.
\<close>

theorem dense_weights_closed_form:
  "calculate_weights_class False l M U S = weights_spec l M U S
   \<and> (nrows U = length M \<and> ncols U = length S \<and> list_all (\<lambda>x. x * x + l \<noteq> 0) S \<longrightarrow>
        (\<exists>v. calculate_weights_class False l M U S = Inr v \<and> length v = length M))"
proof (intro conjI impI)
  show "calculate_weights_class False l M U S = weights_spec l M U S"
    by (rule dense_weights_eq_spec)
next
  assume h: "nrows U = length M \<and> ncols U = length S \<and> list_all (\<lambda>x. x * x + l \<noteq> 0) S"
  then have nz: "list_all (\<lambda>x. x \<noteq> 0) (map (\<lambda>x. x\<^sup>2 + l) S)"
    by (simp add: list_all_iff power2_eq_square)
  show "\<exists>v. calculate_weights_class False l M U S = Inr v \<and> length v = length M"
    using h reciprocal_Inr [OF nz]
    by (simp add: calculate_weights_class_def denominators_eq bindE_def matvec_Inr matvec_diag)
qed

theorem dense_weights_closed_form_witness:
  "nrows (Mat 2 2 [[1, 0], [0, 1]]) = length [1, 1 :: real]
   \<and> ncols (Mat 2 2 [[1, 0], [0, 1]]) = length [2, 0 :: real]
   \<and> list_all (\<lambda>x. x * x + 1 / 100 \<noteq> (0::real)) [2, 0]
   \<and> calculate_weights_class False (1 / 100) [1, 1] (Mat 2 2 [[1, 0], [0, 1]]) [2, 0] = Inr [100 / 401, 100]
   \<and> weights_spec (1 / 100) [1, 1] (Mat 2 2 [[1, 0], [0, 1]]) [2, 0] = Inr [100 / 401, 100]"
proof -
  have d: "calculate_weights_class False (1 / 100) [1, 1] (Mat 2 2 [[1, 0], [0, 1]]) [2, 0] = Inr [100 / 401, 100]"
    by (simp add: calculate_weights_class_def eval_defs eval_nat_numeral)
  show ?thesis
    using dense_weights_closed_form [of "1 / 100" "[1, 1]" "Mat 2 2 [[1, 0], [0, 1]]" "[2, 0]"] d
    by simp
qed

text \<open>
  C7. The claim: for all statistics and every \<open>\<lambda> \<ge> 0\<close> the sparse and the dense branch
  of the weight solver give weights that differ by less than a small tolerance. The two
  branches are not the same function: the pseudo-inverse of the sparse branch replaces
  by zero every diagonal entry \<open>S\<^sub>k\<^sup>2 + \<lambda>\<close> that does not exceed its tolerance, where the
  dense branch takes the reciprocal. With \<open>\<lambda> = 1/100\<close>, singular values \<open>4096\<close> and
  \<open>1\<close>, \<open>U\<close> the identity and \<open>M = (0, 1)\<close> the tolerance is above \<open>4\<close>, the entry
  \<open>1 + \<lambda>\<close> is cut, and the weights are \<open>(0, 0)\<close> on the sparse branch and
  \<open>(0, 100/101)\<close> on the dense one; with \<open>\<lambda> = 2\<^sup>-\<^sup>1\<^sup>0\<close> and singular values \<open>1024\<close> and
  \<open>0\<close> they are \<open>(0, 0)\<close> and \<open>(0, 1024)\<close>. With \<open>\<lambda> = 0\<close> and a singular value \<open>0\<close>
  the sparse branch returns finite weights and the reciprocal of the dense branch
  divides by zero. The statistics of the first kind are reached by one learning call:
  on the batch \<open>ex7_X\<close>, whose two targets are \<open>1\<close>, the instance with \<open>sparse = True\<close>
  learns weights that predict \<open>0\<close> for the second sample, and the instance with
  \<open>sparse = False\<close> weights that predict \<open>0.99\<close>.
\<close>

theorem sparse_dense_diverge:
  "calculate_weights_class True (1 / 100) [0, 1] (Mat 2 2 [[1, 0], [0, 1]]) [4096, 1] = Inr [0, 0]
   \<and> calculate_weights_class False (1 / 100) [0, 1] (Mat 2 2 [[1, 0], [0, 1]]) [4096, 1]
       = Inr [0, 100 / 101]
   \<and> calculate_weights_class True (1 / 1024) [0, 1] (Mat 2 2 [[1, 0], [0, 1]]) [1024, 0] = Inr [0, 0]
   \<and> calculate_weights_class False (1 / 1024) [0, 1] (Mat 2 2 [[1, 0], [0, 1]]) [1024, 0]
       = Inr [0, 1024]
   \<and> calculate_weights_class True 0 [1] (Mat 1 1 [[1]]) [0] = Inr [0]
   \<and> calculate_weights_class False 0 [1] (Mat 1 1 [[1]]) [0] = Inl NonFinite
   \<and> fst (aggregate_update ex7_svd (ex7_st0 True) ex7_X ex7_d) = None
   \<and> fst (aggregate_update ex7_svd (ex7_st0 False) ex7_X ex7_d) = None
   \<and> forward (snd (aggregate_update ex7_svd (ex7_st0 True) ex7_X ex7_d)) (\<lambda>i j k. True) ex7_X
       = Inr (Mat 2 1 [[625000050000001 / 625000051000001], [0]])
   \<and> forward (snd (aggregate_update ex7_svd (ex7_st0 False) ex7_X ex7_d)) (\<lambda>i j k. True) ex7_X
       = Inr (Mat 2 1 [[625000050000001 / 625000051000001],
                       [62500005000000100 / 63125004950000101]])"
proof -
  have "calculate_weights_class True (1 / 100) [0, 1] (Mat 2 2 [[1, 0], [0, 1]]) [4096, 1] = Inr [0, 0]"
    "calculate_weights_class False (1 / 100) [0, 1] (Mat 2 2 [[1, 0], [0, 1]]) [4096, 1]
       = Inr [0, 100 / 101]"
    "calculate_weights_class True (1 / 1024) [0, 1] (Mat 2 2 [[1, 0], [0, 1]]) [1024, 0] = Inr [0, 0]"
    "calculate_weights_class False (1 / 1024) [0, 1] (Mat 2 2 [[1, 0], [0, 1]]) [1024, 0]
       = Inr [0, 1024]"
    "calculate_weights_class True 0 [1] (Mat 1 1 [[1]]) [0] = Inr [0]"
    "calculate_weights_class False 0 [1] (Mat 1 1 [[1]]) [0] = Inl NonFinite"
    by (simp_all add: calculate_weights_class_def eval_defs eval_nat_numeral)
  with ex7_sparse ex7_dense ex7_forward show ?thesis by simp
qed

text \<open>
  Where no diagonal entry is zero or under the cut-off, the two branches return the same
  outcome.
\<close>

lemma sparse_dense_agree_above_cut_off:
  assumes "list_all (\<lambda>x. x * x + l \<noteq> 0 \<and> \<bar>x * x + l\<bar> > cut_off l S) S"
  shows "calculate_weights_class True l M U S = calculate_weights_class False l M U S"
proof -
  have nz: "list_all (\<lambda>x. x \<noteq> 0) (map (\<lambda>x. x\<^sup>2 + l) S)"
    using assms by (simp add: list_all_iff power2_eq_square)
  have r: "reciprocal (map (\<lambda>x. x\<^sup>2 + l) S) = Inr (map (\<lambda>x. 1 / (x * x + l)) S)"
    using reciprocal_Inr [OF nz] by (simp add: power2_eq_square comp_def)
  have d: "solver_diag True l S = map (\<lambda>x. 1 / (x * x + l)) S"
    using assms by (simp add: solver_diag_def list_all_iff)
  show ?thesis
    by (simp add: calculate_weights_class_def Let_def pinv_aux d denominators_eq r bindE_def
        cong: sum.case_cong)
qed

section \<open>Incremental learning\<close>

text \<open>
  C1. On a model whose global state is absent, with \<open>\<lambda> \<ge> 0\<close>: for every data set and
  every partition of its samples into two batches (the samples of the data set are those
  of the two batches together, in any order), learning the two batches one after the
  other and learning the data set in one call give the same weight vector for every
  class, exactly, when the three calls return. And each of the three calls does return,
  unless the factorisation itself raises, when the activation is set, there is a class,
  every batch has a row of targets for each sample with a column for each class and
  targets in the domain of \<open>finv\<close>, and \<open>\<lambda> > 0\<close> or the branch is the sparse one. The
  batches may have any number of samples; the bound \<open>n \<le> f + 1\<close> of the scenario is not
  needed over the reals. The proof shows that the factors \<open>(U, S)\<close> of the full data set
  and those of the merge factor one Gram matrix \<open>H H\<^sup>T\<close>, in whose range the moment vector
  lies. Then a column of one \<open>U\<close> overlaps only columns of the other with the same singular
  value, equal singular values get equal diagonal factors (the reciprocal of the dense
  branch, and the pseudo-inverse with its cut-off of the sparse branch), and the two
  weight vectors are equal whatever bases the factorisation chose.
\<close>

theorem incremental_equivalence:
  assumes c: "svd_contract svd" and lam: "0 \<le> lamb st0"
    and empty: "mg st0 = []" "ug st0 = []" "sg st0 = []"
    and wf: "wf_mat X" "wf_mat D" "wf_mat X1" "wf_mat D1" "wf_mat X2" "wf_mat D2"
    and dims: "ncols X1 = ncols X" "ncols X2 = ncols X"
    and part: "mset (zip (rows X) (rows D))
               = mset (zip (rows X1) (rows D1)) + mset (zip (rows X2) (rows D2))"
    and seq1: "aggregate_update svd st0 X1 D1 = (r1, stA)"
    and seq2: "aggregate_update svd stA X2 D2 = (r2, stB)"
    and one: "aggregate_update svd st0 X D = (r3, stC)"
  shows "(r1 = None \<and> r2 = None \<and> r3 = None \<longrightarrow>
            (\<exists>ws. w stB = Some ws \<and> w stC = Some ws \<and> length ws = num_classes st0))
       \<and> (activation st0 = Some a \<and> 0 < num_classes st0 \<and> (0 < lamb st0 \<or> sparse st0)
            \<and> targets_ok a (num_classes st0) X1 D1 \<and> targets_ok a (num_classes st0) X2 D2
            \<and> targets_ok a (num_classes st0) X D \<longrightarrow>
          (r1 = None \<or> svd_raised svd (Suc (ncols X)) r1)
          \<and> (r2 = None \<or> svd_raised svd (Suc (ncols X)) r2)
          \<and> (r3 = None \<or> svd_raised svd (Suc (ncols X)) r3))"
proof (intro conjI impI)
  let ?K = "num_classes st0"
  have g0: "global_ok st0" using empty by (rule global_ok_empty)
  assume "r1 = None \<and> r2 = None \<and> r3 = None"
  with seq1 seq2 one have seq1: "aggregate_update svd st0 X1 D1 = (None, stA)"
    and seq2: "aggregate_update svd stA X2 D2 = (None, stB)"
    and one: "aggregate_update svd st0 X D = (None, stC)"
    by simp_all
  from aggregate_update_inv [OF c g0 seq1]
  have gA: "global_ok stA" and scA: "same_config st0 stA" and lenA: "length (mg stA) = ?K"
    and pos: "0 < ?K"
    by simp_all
  from scA have cfg: "num_classes stA = ?K" "lamb stA = lamb st0" "sparse stA = sparse st0"
    "activation stA = activation st0"
    by (simp_all add: same_config_def)
  from aggregate_update_inv [OF c gA seq2] cfg obtain wsB where
    wsB: "w stB = Some wsB" "length wsB = ?K"
      "\<forall>k<?K. calculate_weights_class (sparse st0) (lamb st0)
                 (mg stB ! k) (ug stB ! k) (sg stB ! k) = Inr (wsB ! k)"
    by auto
  from aggregate_update_inv [OF c g0 one] obtain wsC where
    wsC: "w stC = Some wsC" "length wsC = ?K"
      "\<forall>k<?K. calculate_weights_class (sparse st0) (lamb st0)
                 (mg stC ! k) (ug stC ! k) (sg stC ! k) = Inr (wsC ! k)"
    by auto
  have neA: "mg stA \<noteq> []" using lenA pos by auto
  have "wsC ! k = wsB ! k" if k: "k < ?K" for k
  proof -
    from aggregate_update_entries [OF seq1 k] empty obtain d1 where
      d1: "column D1 k = Inr d1" and
      p1: "priv_update_weights svd st0 X1 d1 = Inr (mg stA ! k, ug stA ! k, sg stA ! k)"
      by auto
    from k cfg have kA: "k < num_classes stA" by simp
    from aggregate_update_entries [OF seq2 kA] neA obtain d2 M2 U2 S2 us US C where
      d2: "column D2 k = Inr d2" and
      p2: "priv_update_weights svd stA X2 d2 = Inr (M2, U2, S2)" and
      mrg: "vadd (mg stA ! k) M2 = Inr (mg stB ! k)"
        "matmul U2 (diag S2) = Inr us"
        "matmul (ug stA ! k) (diag (sg stA ! k)) = Inr US"
        "cat1 us US = Inr C"
        "svd C = Inr (ug stB ! k, sg stB ! k)"
      by blast
    from aggregate_update_entries [OF one k] empty obtain d where
      d: "column D k = Inr d" and
      pf: "priv_update_weights svd st0 X d = Inr (mg stC ! k, ug stC ! k, sg stC ! k)"
      by auto
    have "mset (zip (rows X) d) = mset (zip (rows X1) d1) + mset (zip (rows X2) d2)"
      unfolding column_rows [OF wf(2) d] column_rows [OF wf(4) d1] column_rows [OF wf(6) d2]
      using part by (rule partition_class)
    from class_merge_equivalence [OF c lam pf p1 p2 refl cfg(4) dims wf(1,3,5) this mrg
        wsC(3) [rule_format, OF k] wsB(3) [rule_format, OF k]]
    show ?thesis .
  qed
  with wsB(2) wsC(2) have "wsB = wsC" by (intro nth_equalityI) simp_all
  with wsB wsC show "\<exists>ws. w stB = Some ws \<and> w stC = Some ws \<and> length ws = num_classes st0"
    by simp
next
  let ?K = "num_classes st0" and ?p = "Suc (ncols X)"
  assume h: "activation st0 = Some a \<and> 0 < ?K \<and> (0 < lamb st0 \<or> sparse st0)
            \<and> targets_ok a ?K X1 D1 \<and> targets_ok a ?K X2 D2 \<and> targets_ok a ?K X D"
  have g0: "global_ok st0" using empty by (rule global_ok_empty)
  have f0: "global_fits st0 ?p" "global_fits st0 (Suc (ncols X1))"
    using empty by (simp_all add: global_fits_def)
  from aggregate_update_inv [OF c g0 seq1] empty
  have gA: "global_ok stA" and scA: "same_config st0 stA"
    and rowsA: "\<forall>k<length (ug stA). nrows (ug stA ! k) = Suc (ncols X1)"
    and lenA: "mg stA = [] \<or> length (mg stA) = ?K"
    by simp_all
  from scA have cfg: "num_classes stA = ?K" "lamb stA = lamb st0" "sparse stA = sparse st0"
    "activation stA = activation st0"
    by (simp_all add: same_config_def)
  have fA: "global_fits stA (Suc (ncols X2))"
    using lenA rowsA cfg(1) dims by (auto simp: global_fits_def list_all_length)
  from aggregate_update_progress [OF c g0 f0(2) _ _ _ _ seq1, of a] h dims
  have P1: "r1 = None \<or> svd_raised svd ?p r1" by simp
  from aggregate_update_progress [OF c gA fA _ _ _ _ seq2, of a] h dims cfg
  have P2: "r2 = None \<or> svd_raised svd ?p r2" by auto
  from aggregate_update_progress [OF c g0 f0(1) _ _ _ _ one, of a] h
  have P3: "r3 = None \<or> svd_raised svd ?p r3" by simp
  from P1 show "r1 = None \<or> svd_raised svd ?p r1" .
  from P2 show "r2 = None \<or> svd_raised svd ?p r2" .
  from P3 show "r3 = None \<or> svd_raised svd ?p r3" .
qed

theorem incremental_equivalence_witness:
  "svd_contract ex2_svd \<and> 0 \<le> lamb ex2_st0
   \<and> mg ex2_st0 = [] \<and> ug ex2_st0 = [] \<and> sg ex2_st0 = []
   \<and> wf_mat ex2_X \<and> wf_mat ex2_D \<and> wf_mat ex_X1 \<and> wf_mat ex2_D1 \<and> wf_mat ex_X2 \<and> wf_mat ex2_D2
   \<and> ncols ex_X1 = ncols ex2_X \<and> ncols ex_X2 = ncols ex2_X
   \<and> mset (zip (rows ex2_X) (rows ex2_D))
       = mset (zip (rows ex_X1) (rows ex2_D1)) + mset (zip (rows ex_X2) (rows ex2_D2))
   \<and> aggregate_update ex2_svd ex2_st0 ex_X1 ex2_D1 = (None, ex2_st1)
   \<and> aggregate_update ex2_svd ex2_st1 ex_X2 ex2_D2 = (None, ex2_st2)
   \<and> aggregate_update ex2_svd ex2_st0 ex2_X ex2_D = (None, ex2_st3)
   \<and> activation ex2_st0 = Some Lin \<and> 0 < num_classes ex2_st0
   \<and> (0 < lamb ex2_st0 \<or> sparse ex2_st0)
   \<and> targets_ok Lin (num_classes ex2_st0) ex_X1 ex2_D1
   \<and> targets_ok Lin (num_classes ex2_st0) ex_X2 ex2_D2
   \<and> targets_ok Lin (num_classes ex2_st0) ex2_X ex2_D
   \<and> (\<exists>ws. w ex2_st2 = Some ws \<and> w ex2_st3 = Some ws \<and> length ws = num_classes ex2_st0)
   \<and> num_classes ex2_st0 = 2
   \<and> w ex2_st1 = Some [[400 / 629, 300 / 629], [800 / 629, 600 / 629]]
   \<and> w ex2_st2 = Some [[2135800 / 1578161, - (756900 / 1578161)],
                       [2573300 / 1578161, 750600 / 1578161]]
   \<and> mg ex2_st1 = [[1, 3 / 4], [2, 3 / 2]]
   \<and> mg ex2_st2 = [[3, - (23 / 12)], [3, 1 / 6]]"
proof -
  have l: "0 \<le> lamb ex2_st0" and e: "mg ex2_st0 = []" "ug ex2_st0 = []" "sg ex2_st0 = []"
    by (simp_all add: ex2_st0_def)
  have wf: "wf_mat ex2_X" "wf_mat ex2_D" "wf_mat ex_X1" "wf_mat ex2_D1" "wf_mat ex_X2" "wf_mat ex2_D2"
    by (simp_all add: wf_mat_def ex2_defs ex_defs)
  have d: "ncols ex_X1 = ncols ex2_X" "ncols ex_X2 = ncols ex2_X"
    by (simp_all add: ex2_defs ex_defs)
  have p: "mset (zip (rows ex2_X) (rows ex2_D))
       = mset (zip (rows ex_X1) (rows ex2_D1)) + mset (zip (rows ex_X2) (rows ex2_D2))"
    by (simp add: ex2_defs ex_defs)
  have h: "activation ex2_st0 = Some Lin" "0 < num_classes ex2_st0"
    "0 < lamb ex2_st0 \<or> sparse ex2_st0" "num_classes ex2_st0 = 2"
    by (simp_all add: ex2_st0_def)
  have t: "targets_ok Lin (num_classes ex2_st0) ex_X1 ex2_D1"
    "targets_ok Lin (num_classes ex2_st0) ex_X2 ex2_D2"
    "targets_ok Lin (num_classes ex2_st0) ex2_X ex2_D"
    using ex2_targets by (simp_all add: h(4))
  have v: "w ex2_st1 = Some [[400 / 629, 300 / 629], [800 / 629, 600 / 629]]"
    "w ex2_st2 = Some [[2135800 / 1578161, - (756900 / 1578161)],
                       [2573300 / 1578161, 750600 / 1578161]]"
    "mg ex2_st1 = [[1, 3 / 4], [2, 3 / 2]]"
    "mg ex2_st2 = [[3, - (23 / 12)], [3, 1 / 6]]"
    by (simp_all add: ex2_st1_def ex2_st2_def ex2_st0_def ex2_w_def)
  from incremental_equivalence [OF ex2_svd_contract l e wf d p ex2_first ex2_second ex2_full,
      of Lin]
    ex2_svd_contract l e wf d p ex2_first ex2_second ex2_full h t v
  show ?thesis by simp
qed

section \<open>The aggregation\<close>



section \<open>The rank bound\<close>

text \<open>
  C4. For an instance whose feature batches all have \<open>f\<close> columns, after any sequence of
  \<open>aggregate_update\<close>, \<open>reset\<close> and \<open>set_params\<close> calls (of any batch sizes, failed
  calls included), the stored \<open>U\<close> of every class has at most \<open>f + 1\<close> columns and its
  \<open>S\<close> at most \<open>f + 1\<close> entries.
\<close>

theorem rank_bound:
  assumes "svd_contract svd" and "init K l name sp p = Inr st0"
    and "list_all (call_dim f) calls" and "c < length (ug (run svd st0 calls))"
  shows "ncols (ug (run svd st0 calls) ! c) \<le> f + 1
         \<and> length (sg (run svd st0 calls) ! c) \<le> f + 1
         \<and> length (sg (run svd st0 calls)) = length (ug (run svd st0 calls))"
proof -
  from init_ok [OF assms(2)] have g0: "global_ok st0" and e: "ug st0 = []" by simp_all
  from run_inv [OF assms(1) g0] have g: "global_ok (run svd st0 calls)" by simp
  from run_dim [OF assms(1) g0 assms(3)] e assms(4)
  have "nrows (ug (run svd st0 calls) ! c) = Suc f" by simp
  with g assms(4) show ?thesis by (auto simp: global_ok_def stats_ok_def)
qed

theorem rank_bound_witness:
  "svd_contract ex_svd
   \<and> init 1 (1 / 100) ''lin'' False 0 = Inr ex_st0
   \<and> list_all (call_dim 1) [AggregateUpdate ex_X1 ex_d1, AggregateUpdate ex_X2 ex_d2]
   \<and> 0 < length (ug (run ex_svd ex_st0 [AggregateUpdate ex_X1 ex_d1, AggregateUpdate ex_X2 ex_d2]))
   \<and> ncols (ug (run ex_svd ex_st0 [AggregateUpdate ex_X1 ex_d1, AggregateUpdate ex_X2 ex_d2]) ! 0) \<le> 1 + 1
   \<and> ncols (ug ex_st2 ! 0) = 2"
proof -
  have d: "list_all (call_dim 1) [AggregateUpdate ex_X1 ex_d1, AggregateUpdate ex_X2 ex_d2]"
    by (simp add: ex_X1_def ex_X2_def)
  have p: "0 < length (ug (run ex_svd ex_st0 [AggregateUpdate ex_X1 ex_d1, AggregateUpdate ex_X2 ex_d2]))"
    unfolding ex_run_two by (simp add: ex_st2_def ex_st0_def)
  have "ncols (ug ex_st2 ! 0) = 2" by (simp add: ex_st2_def ex_st0_def ex_U_def)
  with rank_bound [OF ex_svd_contract ex_init d p] d p ex_svd_contract ex_init
  show ?thesis by simp
qed

section \<open>Inference\<close>

text \<open>
  C8. On an instance on which no \<open>aggregate_update\<close> and no \<open>set_params\<close> has
  completed since the construction or the last \<open>reset\<close> (calls that raised included),
  \<open>forward\<close> fails on every feature batch: \<open>len(self.w)\<close> raises a \<open>TypeError\<close>, as
  \<open>self.w\<close> is \<open>None\<close>.
\<close>

theorem forward_before_training_fails:
  assumes "svd_contract svd" and "init K l name sp p = Inr st0"
    and "fresh_run svd True st0 calls"
  shows "forward (run svd st0 calls) keeps X = Inl TypeError"
proof -
  from init_ok [OF assms(2)] have g0: "global_ok st0" and w0: "w st0 = None" by simp_all
  from fresh_run_w [OF assms(1) g0 _ assms(3)] w0 have "w (run svd st0 calls) = None" by simp
  then show ?thesis by (rule forward_uninitialized)
qed

theorem forward_before_training_fails_witness:
  "svd_contract ex_svd
   \<and> init 1 (1 / 100) ''lin'' False 0 = Inr ex_st0
   \<and> fresh_run ex_svd True ex_st0
        [AggregateUpdate ex_X1 ex_d1, Reset, AggregateUpdate ex_X1 ex_d_bad]
   \<and> forward (run ex_svd ex_st0
                 [AggregateUpdate ex_X1 ex_d1, Reset, AggregateUpdate ex_X1 ex_d_bad])
         (\<lambda>i j k. True) ex_X = Inl TypeError"
proof -
  have f: "fresh_run ex_svd True ex_st0
        [AggregateUpdate ex_X1 ex_d1, Reset, AggregateUpdate ex_X1 ex_d_bad]"
    by (simp add: ex_first ex_failed raised_def)
  from forward_before_training_fails [OF ex_svd_contract ex_init f] f ex_svd_contract ex_init
  show ?thesis by simp
qed

text \<open>
  C10. After a learning call that returns, on an instance constructed with \<open>K\<close> classes,
  the lists \<open>mg\<close>, \<open>ug\<close>, \<open>sg\<close> and \<open>w\<close> hold \<open>K\<close> entries each, and \<open>forward\<close> on a
  batch of \<open>n\<close> rows (with the feature dimension of the instance) returns an \<open>n \<times> K\<close>
  matrix.
\<close>

theorem classes_all_present:
  assumes "svd_contract svd" and "init K l name sp p = Inr st0"
    and "aggregate_update svd (run svd st0 calls) X d = (None, st')"
    and "ncols X' = ncols X"
  shows "length (mg st') = K \<and> length (ug st') = K \<and> length (sg st') = K
         \<and> (\<exists>ws. w st' = Some ws \<and> length ws = K)
         \<and> (\<exists>Y. forward st' keeps X' = Inr Y \<and> wf_mat Y \<and> nrows Y = nrows X' \<and> ncols Y = K)
         \<and> (length (mg (run svd st0 calls)) = 0 \<or> length (mg (run svd st0 calls)) = K)
         \<and> length (ug (run svd st0 calls)) = length (mg (run svd st0 calls))
         \<and> length (sg (run svd st0 calls)) = length (mg (run svd st0 calls))"
proof -
  let ?st = "run svd st0 calls"
  from init_ok [OF assms(2)] have g0: "global_ok st0" and K: "num_classes st0 = K"
    and e: "mg st0 = []"
    by (auto simp: global_ok_def)
  from run_inv [OF assms(1) g0] K have g: "global_ok ?st" and nc: "num_classes ?st = K"
    by (simp_all add: same_config_def)
  from run_len [OF assms(1) g0, of calls] e K
  have L: "length (mg ?st) = 0 \<or> length (mg ?st) = K" by simp
  from aggregate_update_inv [OF assms(1) g assms(3)] nc obtain ws where
    g': "global_ok st'" and sc: "same_config ?st st'" and act: "activation ?st \<noteq> None"
    and len: "length (mg st') = K" and ws: "w st' = Some ws" "length ws = K"
      "\<forall>k<K. length (ws ! k) = Suc (ncols X)"
    by auto
  from act sc obtain a where a: "activation st' = Some a" by (auto simp: same_config_def)
  from forward_ok [OF ws(1) a, of X' keeps] ws(2,3) assms(4)
  obtain Y where "forward st' keeps X' = Inr Y" "wf_mat Y" "nrows Y = nrows X'" "ncols Y = K"
    by auto
  with g' g L len ws show ?thesis by (auto simp: global_ok_def)
qed

theorem classes_all_present_witness:
  "svd_contract ex_svd
   \<and> init 1 (1 / 100) ''lin'' False 0 = Inr ex_st0
   \<and> aggregate_update ex_svd (run ex_svd ex_st0 [AggregateUpdate ex_X1 ex_d1]) ex_X2 ex_d2
       = (None, ex_st2)
   \<and> ncols ex_X = ncols ex_X2
   \<and> length (mg ex_st2) = 1 \<and> length (ug ex_st2) = 1 \<and> length (sg ex_st2) = 1
   \<and> (\<exists>ws. w ex_st2 = Some ws \<and> length ws = 1)
   \<and> (\<exists>Y. forward ex_st2 (\<lambda>i j k. True) ex_X = Inr Y \<and> wf_mat Y \<and> nrows Y = nrows ex_X
            \<and> ncols Y = 1)
   \<and> forward ex_st2 (\<lambda>i j k. True) ex_X = Inr (Mat 2 1 [[625 / 629], [0]])"
proof -
  have a: "aggregate_update ex_svd (run ex_svd ex_st0 [AggregateUpdate ex_X1 ex_d1]) ex_X2 ex_d2
       = (None, ex_st2)"
    unfolding ex_run_one by (rule ex_second)
  have n: "ncols ex_X = ncols ex_X2" by (simp add: ex_X_def ex_X2_def)
  from classes_all_present [OF ex_svd_contract ex_init a n, of "\<lambda>i j k. True"]
    a n ex_svd_contract ex_init ex_forward_values
  show ?thesis by simp
qed

section \<open>The per-sample weight\<close>

text \<open>
  The logistic function is inverted by the logit on \<open>(0, 1)\<close>, and its derivative at
  \<open>z\<close> is \<open>sigmoid z \<cdot> (1 - sigmoid z)\<close>: at \<open>z = logit t\<close> that is \<open>t \<cdot> (1 - t)\<close>.
\<close>

lemma sigmoid_logit:
  assumes "0 < t" "t < 1"
  shows "sigmoid (ln (t / (1 - t))) = t"
proof -
  have pos: "0 < t / (1 - t)" using assms by simp
  have "exp (- ln (t / (1 - t))) = (1 - t) / t"
    using pos by (simp add: exp_minus field_simps)
  then have "sigmoid (ln (t / (1 - t))) = 1 / (1 + (1 - t) / t)"
    by (simp add: sigmoid_def)
  also have "\<dots> = t" using assms by (simp add: field_simps)
  finally show ?thesis .
qed

lemma sigmoid_deriv: "(sigmoid has_real_derivative sigmoid z * (1 - sigmoid z)) (at z)"
proof -
  have pos: "1 + exp (- z) \<noteq> 0"
    using exp_gt_zero [of "- z"] by linarith
  have "((\<lambda>x. 1 / (1 + exp (- x))) has_real_derivative
          (sigmoid z * (1 - sigmoid z))) (at z)"
    by (auto intro!: derivative_eq_intros simp: pos sigmoid_def field_simps power2_eq_square)
  then show ?thesis
    by (simp add: sigmoid_def [abs_def])
qed

text \<open>
  Lines 74 and 77 of the source apply \<open>fderiv\<close> to the result of \<open>finv\<close>, so the
  weight of a sample with target \<open>t\<close> is \<open>z \<cdot> (1 - z)\<close> for \<open>z = logit t\<close>.
\<close>

lemma logistic_weight_general:
  assumes "0 < t" "t < 1"
  shows "bindE (finv Logs [t]) (\<lambda>f_d. Inr (fderiv Logs f_d)) = Inr [ln (t / (1 - t)) * (1 - ln (t / (1 - t)))]"
  using assms by (simp add: finv_def fderiv_def bindE_def)

text \<open>
  C5. The claim: for the logistic activation the per-sample weight of a target \<open>t\<close> in
  \<open>(0, 1)\<close> is the derivative of the sigmoid at \<open>logit t\<close>, that is \<open>t \<cdot> (1 - t)\<close>. For
  \<open>t = 1/2\<close> the code computes the weight \<open>0\<close>, where the derivative of the sigmoid at
  \<open>logit (1/2) = 0\<close> is \<open>1/4\<close>. In \<open>_update_weights\<close> the weighted design of the
  one sample \<open>x = 1\<close> with that target is then the zero matrix; the third statement
  shows it by a factorisation that hands its argument back.
\<close>

theorem logistic_weight_at_half:
  "bindE (finv Logs [1 / 2]) (\<lambda>f_d. Inr (fderiv Logs f_d)) = Inr [0]
   \<and> sigmoid (ln ((1 / 2) / (1 - 1 / 2))) * (1 - sigmoid (ln ((1 / 2) / (1 - 1 / 2)))) = 1 / 4
   \<and> priv_update_weights (\<lambda>H. Inr (H, []))
        \<lparr>num_classes = 1, lamb = 1 / 100, activation = Some Logs, w = None,
         m = None, u = None, s = None, mg = [], ug = [], sg = [],
         sparse = False, dropout_rate = 0, training = True\<rparr>
        (Mat 1 1 [[1]]) [1 / 2] = Inr ([0, 0], Mat 2 1 [[0], [0]], [])"
  by (simp add: priv_update_weights_def eval_defs eval_nat_numeral sigmoid_def)

section \<open>Construction\<close>

text \<open>
  C6. The claim: an activation name outside the recognised set makes the constructor fail
  with a configuration error. The constructor has no branch for such a name: with the
  name \<open>tanh\<close> it returns an object whose activation attributes do not exist, and the
  failure comes with the first learning call, as an \<open>AttributeError\<close>.
\<close>

theorem init_unrecognized_activation_constructs:
  "init 2 (1 / 100) ''tanh'' False 0 =
     Inr \<lparr>num_classes = 2, lamb = 1 / 100, activation = None, w = None,
          m = None, u = None, s = None, mg = [], ug = [], sg = [],
          sparse = False, dropout_rate = 0, training = True\<rparr>
   \<and> fst (aggregate_update (\<lambda>H. Inl LinAlgError)
            \<lparr>num_classes = 2, lamb = 1 / 100, activation = None, w = None,
             m = None, u = None, s = None, mg = [], ug = [], sg = [],
             sparse = False, dropout_rate = 0, training = True\<rparr>
            (Mat 1 1 [[0]]) (Mat 1 2 [[1 / 2, 1 / 2]])) = Some AttributeError"
  by (simp add: init_def aggregate_update_def update_weights_def priv_update_weights_def
      bindE_def column_def cat0_def ones_def mat_T_def mat_of_def vec_of_def upt_rec)

section \<open>The serialization boundary\<close>

text \<open>
  C9. The claim: \<open>get_params\<close> returns the persisted weights and statistics without
  raising. On every object \<open>get_params\<close> raises an \<open>AttributeError\<close>, because it
  reads the attribute \<open>us\<close>, which is never assigned.
\<close>

theorem get_params_raises:
  "get_params st = Inl AttributeError"
  by (simp add: get_params_def)

end
